theory Spec2Isabelle
  imports Main
begin

section \<open>Errors\<close>

text \<open>
  Every exception of the source is a value.  \<open>OTMLException\<close> carries the text that
  \<open>what()\<close> returns.  The two remaining constructors stand for undefined behaviour of the
  C++ program: calling a member through a null \<open>shared_ptr\<close>, and reading a
  \<open>std::string\<close> at an index beyond its size.
\<close>

datatype error =
    OTMLException string
  | NullPointerDereference
  | StringIndexOutOfRange

section \<open>Characters and strings\<close>

abbreviation NL :: char where "NL \<equiv> CHR 0x0A"
abbreviation TAB :: char where "TAB \<equiv> CHR 0x09"
abbreviation SPC :: char where "SPC \<equiv> CHR '' ''"

text \<open>\<open>std::isspace\<close> in the C locale: space, and the control characters 9 to 13.\<close>

definition isspace :: "char \<Rightarrow> bool" where
  "isspace c = (c = SPC \<or> c = TAB \<or> c = NL \<or> c = CHR 0x0B \<or> c = CHR 0x0C \<or> c = CHR 0x0D)"

text \<open>\<open>otml_util::trim\<close>: erase the leading, then the trailing white space.\<close>

definition trim :: "string \<Rightarrow> string" where
  "trim s = rev (dropWhile isspace (rev (dropWhile isspace s)))"

text \<open>\<open>s[i]\<close> of a \<open>std::string\<close>: the character for \<open>i < size\<close>, the terminating
  null character for \<open>i = size\<close>; beyond that the read is undefined.  The index is an
  \<open>int\<close>: a negative one is what the conversion to \<open>size_t\<close> wraps to a position far
  beyond the size.\<close>

definition char_at :: "string \<Rightarrow> int \<Rightarrow> error + char" where
  "char_at s i = (if 0 \<le> i \<and> i < int (length s) then Inr (s ! nat i)
                  else if i = int (length s) then Inr (CHR 0x00)
                  else Inl StringIndexOutOfRange)"

text \<open>\<open>std::find\<close> over a sequence: the first position of the element, the end as \<open>None\<close>.\<close>

fun std_find :: "'a list \<Rightarrow> 'a \<Rightarrow> nat option" where
  "std_find [] x = None"
| "std_find (y # ys) x = (if y = x then Some 0 else map_option Suc (std_find ys x))"

text \<open>\<open>std::string::find_first_of(c)\<close>: the first position of \<open>c\<close>, \<open>npos\<close> as \<open>None\<close>.\<close>

definition find_first_of :: "string \<Rightarrow> char \<Rightarrow> nat option" where
  "find_first_of s c = std_find s c"

text \<open>Streaming an \<open>int\<close> into a \<open>std::stringstream\<close>: its decimal rendering.\<close>

fun show_nat :: "nat \<Rightarrow> string" where
  "show_nat n = (if n < 10 then [''0123456789'' ! n]
                 else show_nat (n div 10) @ [''0123456789'' ! (n mod 10)])"

declare show_nat.simps [simp del]

definition show_int :: "int \<Rightarrow> string" where
  "show_int i = (if i < 0 then CHR ''-'' # show_nat (nat (- i)) else show_nat (nat i))"

section \<open>Value codec\<close>

definition validNames :: "string list list" where
  "validNames = [[''true'', ''yes'', ''on'', ''1''], [''false'', ''no'', ''off'', ''0'']]"

text \<open>
  \<open>cast(const std::string&, bool&)\<close>: the loop over the four columns of the table, first
  row before second row in each column.  The C++ returns the success flag and writes the
  result through a reference; the model returns \<open>Some\<close> result on success.
\<close>

function cast_string_bool_from :: "nat \<Rightarrow> string \<Rightarrow> bool option" where
  "cast_string_bool_from i s =
     (if i < 4 then
        (if s = validNames ! 0 ! i then Some True
         else if s = validNames ! 1 ! i then Some False
         else cast_string_bool_from (i + 1) s)
      else None)"
  by pat_completeness auto
termination
  by (relation "measure (\<lambda>(i, s). 4 - i)") auto

declare cast_string_bool_from.simps [simp del]

definition cast_string_bool :: "string \<Rightarrow> bool option" where
  "cast_string_bool s = cast_string_bool_from 0 s"

text \<open>\<open>cast(const bool&, std::string&)\<close> and \<open>cast(const std::string&, std::string&)\<close>
  always succeed.\<close>

definition cast_bool_string :: "bool \<Rightarrow> string option" where
  "cast_bool_string b = Some (if b then ''true'' else ''false'')"

definition cast_string_string :: "string \<Rightarrow> string option" where
  "cast_string_string s = Some s"

section \<open>The node store\<close>

text \<open>
  Nodes are shared objects reached through \<open>shared_ptr\<close>s, and they hold a reference to
  their parent: the model keeps them in a store.  An address is an index into the store, a
  pointer that may be null is an \<open>addr option\<close>, and \<open>new OTMLNode\<close> appends a cell.
  Nothing is ever freed: a cell that the C++ program has released is one that no pointer
  of the model reaches.
\<close>

type_synonym addr = nat

record node =
  m_children :: "addr list"
  m_parent :: "addr option"
  m_tag :: string
  m_value :: string
  m_source :: string
  m_unique :: bool
  m_null :: bool

type_synonym heap = "node list"

text \<open>The constructor \<open>OTMLNode()\<close>.\<close>

definition new_OTMLNode :: node where
  "new_OTMLNode = \<lparr> m_children = [], m_parent = None, m_tag = [], m_value = [],
                     m_source = [], m_unique = False, m_null = False \<rparr>"

definition alloc :: "heap \<Rightarrow> addr \<times> heap" where
  "alloc h = (length h, h @ [new_OTMLNode])"

definition setTag :: "heap \<Rightarrow> addr \<Rightarrow> string \<Rightarrow> heap" where
  "setTag h a t = h[a := (h ! a)\<lparr> m_tag := t \<rparr>]"

definition setValue :: "heap \<Rightarrow> addr \<Rightarrow> string \<Rightarrow> heap" where
  "setValue h a v = h[a := (h ! a)\<lparr> m_value := v \<rparr>]"

definition setNull :: "heap \<Rightarrow> addr \<Rightarrow> bool \<Rightarrow> heap" where
  "setNull h a b = h[a := (h ! a)\<lparr> m_null := b \<rparr>]"

definition setUnique :: "heap \<Rightarrow> addr \<Rightarrow> bool \<Rightarrow> heap" where
  "setUnique h a b = h[a := (h ! a)\<lparr> m_unique := b \<rparr>]"

definition setParent :: "heap \<Rightarrow> addr \<Rightarrow> addr option \<Rightarrow> heap" where
  "setParent h a p = h[a := (h ! a)\<lparr> m_parent := p \<rparr>]"

definition setSource :: "heap \<Rightarrow> addr \<Rightarrow> string \<Rightarrow> heap" where
  "setSource h a s = h[a := (h ! a)\<lparr> m_source := s \<rparr>]"

definition setChildren :: "heap \<Rightarrow> addr \<Rightarrow> addr list \<Rightarrow> heap" where
  "setChildren h a cs = h[a := (h ! a)\<lparr> m_children := cs \<rparr>]"

definition hasTag :: "node \<Rightarrow> bool" where
  "hasTag n = (m_tag n \<noteq> [])"

definition hasValue :: "node \<Rightarrow> bool" where
  "hasValue n = (m_value n \<noteq> [])"

text \<open>\<open>OTMLNode::create(tag, unique)\<close> and \<open>OTMLNode::create(tag, value)\<close>.\<close>

definition create :: "heap \<Rightarrow> string \<Rightarrow> bool \<Rightarrow> addr \<times> heap" where
  "create h tag unique =
     (let (a, h1) = alloc h in (a, setUnique (setTag h1 a tag) a unique))"

definition create_value :: "heap \<Rightarrow> string \<Rightarrow> string \<Rightarrow> addr \<times> heap" where
  "create_value h tag v =
     (let (a, h1) = alloc h in (a, setUnique (setValue (setTag h1 a tag) a v) a True))"


section \<open>Exceptions\<close>

text \<open>The two constructors of \<open>OTMLException\<close> build the text of \<open>what()\<close>.\<close>

definition OTMLException_node :: "heap \<Rightarrow> addr \<Rightarrow> string \<Rightarrow> error" where
  "OTMLException_node h a err =
     OTMLException (''OTML error''
       @ (if m_source (h ! a) \<noteq> [] then '' in '' @ [CHR 0x27] @ m_source (h ! a) @ [CHR 0x27] else [])
       @ '': '' @ err)"

definition OTMLException_doc :: "heap \<Rightarrow> addr option \<Rightarrow> string \<Rightarrow> int \<Rightarrow> error" where
  "OTMLException_doc h d err line =
     OTMLException (''OTML error''
       @ (case d of
            None \<Rightarrow> []
          | Some a \<Rightarrow>
              if m_source (h ! a) \<noteq> [] then
                '' in '' @ [CHR 0x27] @ m_source (h ! a) @ [CHR 0x27]
                @ (if line \<ge> 0 then '' at line '' @ show_int line else [])
              else [])
       @ '': '' @ err)"

section \<open>Lookup and typed access\<close>

text \<open>\<open>OTMLNode::get\<close>: the first child with the tag that is not null, or \<open>nullptr\<close>.\<close>

definition get :: "heap \<Rightarrow> addr \<Rightarrow> string \<Rightarrow> addr option" where
  "get h a childTag =
     find (\<lambda>child. m_tag (h ! child) = childTag \<and> \<not> m_null (h ! child)) (m_children (h ! a))"

definition getIndex :: "heap \<Rightarrow> addr \<Rightarrow> int \<Rightarrow> addr option" where
  "getIndex h a childIndex =
     (if childIndex < int (length (m_children (h ! a))) \<and> childIndex \<ge> 0
      then Some (m_children (h ! a) ! nat childIndex) else None)"

text \<open>\<open>OTMLNode::value<T>()\<close>, with the conversion \<open>otml_util::cast<std::string, T>\<close> as a
  parameter.\<close>

definition node_value :: "(string \<Rightarrow> 'a option) \<Rightarrow> heap \<Rightarrow> addr \<Rightarrow> error + 'a" where
  "node_value cast h a =
     (case cast (m_value (h ! a)) of
        None \<Rightarrow> Inl (OTMLException_node h a ''failed to cast node value'')
      | Some ret \<Rightarrow> Inr ret)"

text \<open>\<open>OTMLNode::valueAt<T>(childTag, def)\<close>.\<close>

definition valueAt_def :: "(string \<Rightarrow> 'a option) \<Rightarrow> heap \<Rightarrow> addr \<Rightarrow> string \<Rightarrow> 'a \<Rightarrow> error + 'a" where
  "valueAt_def cast h a childTag def =
     (case get h a childTag of
        Some n \<Rightarrow> if \<not> m_null (h ! n) then node_value cast h n else Inr def
      | None \<Rightarrow> Inr def)"

text \<open>\<open>OTMLNode::write<T>(v)\<close>, with \<open>otml_util::cast<T, std::string>\<close> as a parameter;
  \<open>safeCast\<close> throws \<open>BadCast\<close> when the conversion fails, which no conversion to a string
  does.\<close>

definition node_write :: "('a \<Rightarrow> string option) \<Rightarrow> heap \<Rightarrow> addr \<Rightarrow> 'a \<Rightarrow> heap option" where
  "node_write cast h a v = map_option (setValue h a) (cast v)"

section \<open>Adding children\<close>

text \<open>
  \<open>OTMLNode::replaceChild\<close>: \<open>std::find\<close> compares pointers; the old child loses its
  parent, the new one gets \<open>shared_from_this()\<close>, and the new child takes the old one's
  place in the vector (\<open>erase\<close>, then \<open>insert\<close> at the same iterator).
\<close>

definition replaceChild :: "heap \<Rightarrow> addr \<Rightarrow> addr \<Rightarrow> addr \<Rightarrow> bool \<times> heap" where
  "replaceChild h p oldChild newChild =
     (case std_find (m_children (h ! p)) oldChild of
        Some i \<Rightarrow>
          let h1 = setParent h oldChild None;
              h2 = setParent h1 newChild (Some p);
              erased = take i (m_children (h2 ! p)) @ drop (Suc i) (m_children (h2 ! p));
              inserted = take i erased @ [newChild] @ drop i erased
          in (True, setChildren h2 p inserted)
      | None \<Rightarrow> (False, h))"

text \<open>
  The \<open>while\<close> loop of \<open>addChild\<close> over the vector: a child that is another object than
  \<open>newChild\<close> and has its tag loses its parent and is erased.  The loop returns the store
  and the elements it kept.
\<close>

fun erase_same_tag :: "heap \<Rightarrow> addr \<Rightarrow> addr list \<Rightarrow> heap \<times> addr list" where
  "erase_same_tag h newChild [] = (h, [])"
| "erase_same_tag h newChild (n # rest) =
     (if n \<noteq> newChild \<and> m_tag (h ! n) = m_tag (h ! newChild)
      then erase_same_tag (setParent h n None) newChild rest
      else (let (h', kept) = erase_same_tag h newChild rest in (h', n # kept)))"

text \<open>The test of the \<open>for\<close> loop of \<open>addChild\<close> on an existing child.\<close>

definition addChild_match :: "heap \<Rightarrow> addr \<Rightarrow> addr \<Rightarrow> bool" where
  "addChild_match h newChild n =
     (m_tag (h ! n) = m_tag (h ! newChild) \<and> (m_unique (h ! n) \<or> m_unique (h ! newChild)))"

text \<open>\<open>OTMLNode::addChild\<close>, called on the node at \<open>p\<close>.\<close>

definition addChild :: "heap \<Rightarrow> addr \<Rightarrow> addr \<Rightarrow> heap" where
  "addChild h p newChild =
     (case (if hasTag (h ! newChild)
            then find (addChild_match h newChild) (m_children (h ! p)) else None) of
        Some n \<Rightarrow>
          let h1 = setUnique h newChild True;
              h2 = snd (replaceChild h1 p n newChild);
              (h3, kept) = erase_same_tag h2 newChild (m_children (h2 ! p))
          in setChildren h3 p kept
      | None \<Rightarrow>
          let h1 = setChildren h p (m_children (h ! p) @ [newChild])
          in setParent h1 newChild (Some p))"


definition writeIn :: "('a \<Rightarrow> string option) \<Rightarrow> heap \<Rightarrow> addr \<Rightarrow> 'a \<Rightarrow> heap option" where
  "writeIn cast h p v =
     (let (child, h1) = create h [] False
      in map_option (\<lambda>h2. addChild h2 p child) (node_write cast h1 child v))"

section \<open>Emitter\<close>

definition indent :: "int \<Rightarrow> string" where
  "indent d = concat (replicate (nat d) ''  '')"

text \<open>
  The \<open>for\<close> loop over the positions of a value that holds a newline: each round emits a
  newline, the indentation, and the characters up to the next newline, which the
  increment of the loop then skips.  The argument is the value from the current position.
\<close>

function emit_block :: "string \<Rightarrow> string \<Rightarrow> string" where
  "emit_block ind r =
     (if r = [] then []
      else [NL] @ ind @ takeWhile (\<lambda>c. c \<noteq> NL) r
           @ emit_block ind (drop 1 (dropWhile (\<lambda>c. c \<noteq> NL) r)))"
  by pat_completeness auto
termination
proof (relation "measure (\<lambda>(ind, r). length r)")
  show "wf (measure (\<lambda>(ind, r). length r))" by simp
next
  fix ind :: string and r :: string
  assume "r \<noteq> []"
  then have "length (drop 1 (dropWhile (\<lambda>c. c \<noteq> NL) r)) < length r"
    using length_dropWhile_le [of "\<lambda>c. c \<noteq> NL" r]
    by (cases r) (auto split: if_splits)
  then show "((ind, drop 1 (dropWhile (\<lambda>c. c \<noteq> NL) r)), (ind, r)) \<in> measure (\<lambda>(ind, r). length r)"
    by simp
qed

declare emit_block.simps [simp del]

text \<open>The choice of the block style reads the last two characters of the value.\<close>

definition block_style :: "string \<Rightarrow> error + string" where
  "block_style v =
     (case char_at v (int (length v) - 1) of
        Inl e \<Rightarrow> Inl e
      | Inr c1 \<Rightarrow>
          if c1 = NL then
            (case char_at v (int (length v) - 2) of
               Inl e \<Rightarrow> Inl e
             | Inr c2 \<Rightarrow> if c2 = NL then Inr ''|+'' else Inr ''|'')
          else Inr ''|-'')"

text \<open>What \<open>emitNode\<close> writes for the node itself when \<open>currentDepth >= 0\<close>.\<close>

definition emit_own :: "node \<Rightarrow> int \<Rightarrow> error + string" where
  "emit_own n d =
     (let head = indent d
            @ (if hasTag n
               then m_tag n @ (if hasValue n \<or> m_unique n \<or> m_null n then '':'' else [])
               else ''-'')
      in if m_null n then Inr (head @ '' ~'')
         else if hasValue n then
           (if NL \<in> set (m_value n) then
              (case block_style (m_value n) of
                 Inl e \<Rightarrow> Inl e
               | Inr st \<Rightarrow> Inr (head @ '' '' @ st @ emit_block (indent (d + 1)) (m_value n)))
            else Inr (head @ '' '' @ m_value n))
         else Inr head)"

text \<open>The loop over the children: \<open>sep\<close> tells whether a newline precedes the next
  child, \<open>f\<close> is the recursive call.\<close>

fun emit_children :: "(addr \<Rightarrow> (error + string) option) \<Rightarrow> bool \<Rightarrow> addr list \<Rightarrow> (error + string) option" where
  "emit_children f sep [] = Some (Inr [])"
| "emit_children f sep (c # cs) =
     (case f c of
        None \<Rightarrow> None
      | Some (Inl e) \<Rightarrow> Some (Inl e)
      | Some (Inr s) \<Rightarrow>
          (case emit_children f True cs of
             None \<Rightarrow> None
           | Some (Inl e) \<Rightarrow> Some (Inl e)
           | Some (Inr t) \<Rightarrow> Some (Inr ((if sep then [NL] else []) @ s @ t))))"

text \<open>
  \<open>OTMLEmitter::emitNode\<close>.  The recursion follows the pointers of the store and does not
  end on a node that is its own descendant: the first argument bounds the depth of the
  recursion, and \<open>None\<close> is the result when the bound is reached.
\<close>

fun emitNode :: "nat \<Rightarrow> heap \<Rightarrow> addr \<Rightarrow> int \<Rightarrow> (error + string) option" where
  "emitNode 0 h a currentDepth = None"
| "emitNode (Suc k) h a currentDepth =
     (case (if currentDepth \<ge> 0 then emit_own (h ! a) currentDepth else Inr []) of
        Inl e \<Rightarrow> Some (Inl e)
      | Inr s \<Rightarrow>
          (case emit_children (\<lambda>c. emitNode k h c (currentDepth + 1)) (currentDepth \<ge> 0)
                  (m_children (h ! a)) of
             None \<Rightarrow> None
           | Some (Inl e) \<Rightarrow> Some (Inl e)
           | Some (Inr t) \<Rightarrow> Some (Inr (s @ t))))"

text \<open>\<open>OTMLDocument::emit\<close> starts at depth \<open>-1\<close>, \<open>OTMLNode::emit\<close> at depth \<open>0\<close>.\<close>

definition document_emit :: "nat \<Rightarrow> heap \<Rightarrow> addr \<Rightarrow> (error + string) option" where
  "document_emit k h a = emitNode k h a (- 1)"

definition node_emit :: "nat \<Rightarrow> heap \<Rightarrow> addr \<Rightarrow> (error + string) option" where
  "node_emit k h a = emitNode k h a 0"

section \<open>Input stream\<close>

text \<open>
  The \<open>std::istream\<close> the parser reads: its characters, the read position and the two
  state bits the parser can meet.  \<open>good()\<close> holds when neither bit is set.
\<close>

record istream =
  buf :: string
  gpos :: nat
  eofbit :: bool
  failbit :: bool

definition good :: "istream \<Rightarrow> bool" where
  "good s = (\<not> eofbit s \<and> \<not> failbit s)"

text \<open>
  \<open>std::getline(in, line)\<close>: on a stream that is not good the extraction fails and the line
  stays empty; otherwise the characters up to the next newline are extracted and the
  newline is dropped.  Reaching the end of the characters sets \<open>eofbit\<close>, and \<open>failbit\<close>
  too when nothing was extracted.
\<close>

definition getline :: "istream \<Rightarrow> string \<times> istream" where
  "getline s =
     (if \<not> good s then ([], s\<lparr> failbit := True \<rparr>)
      else
        let r = drop (gpos s) (buf s);
            l = takeWhile (\<lambda>c. c \<noteq> NL) r
        in if length l < length r
           then (l, s\<lparr> gpos := gpos s + length l + 1 \<rparr>)
           else (l, s\<lparr> gpos := gpos s + length l, eofbit := True, failbit := (l = []) \<rparr>))"

text \<open>\<open>tellg()\<close>: the position, or \<open>-1\<close> (here \<open>None\<close>) with \<open>failbit\<close> set on a stream that is
  not good.\<close>

definition tellg :: "istream \<Rightarrow> nat option \<times> istream" where
  "tellg s = (if good s then (Some (gpos s), s) else (None, s\<lparr> failbit := True \<rparr>))"

text \<open>\<open>seekg(pos, std::ios::beg)\<close>: clears \<open>eofbit\<close>, then moves the position unless the
  stream has failed; a position outside the characters sets \<open>failbit\<close>.\<close>

definition seekg :: "istream \<Rightarrow> nat option \<Rightarrow> istream" where
  "seekg s pos =
     (let s1 = s\<lparr> eofbit := False \<rparr>
      in if failbit s1 then s1
         else (case pos of
                 Some n \<Rightarrow> if n \<le> length (buf s1) then s1\<lparr> gpos := n \<rparr> else s1\<lparr> failbit := True \<rparr>
               | None \<Rightarrow> s1\<lparr> failbit := True \<rparr>))"

section \<open>Parser\<close>

record parser =
  currentDepth :: int
  currentLine :: int
  doc :: addr
  currentParent :: "addr option"
  previousNode :: "addr option"
  inp :: istream
  mem :: heap

text \<open>The constructor \<open>OTMLParser(doc, in)\<close>.\<close>

definition new_OTMLParser :: "heap \<Rightarrow> addr \<Rightarrow> istream \<Rightarrow> parser" where
  "new_OTMLParser h d s =
     \<lparr> currentDepth = 0, currentLine = 0, doc = d, currentParent = Some d,
       previousNode = None, inp = s, mem = h \<rparr>"

definition getNextLine :: "parser \<Rightarrow> string \<times> parser" where
  "getNextLine st =
     (let (line, s) = getline (inp st)
      in (line, st\<lparr> currentLine := currentLine st + 1, inp := s \<rparr>))"

text \<open>\<open>OTMLParser::getLineDepth\<close>.  The \<open>while\<close> loop counts the leading spaces; it stops at
  the terminating null character at the latest.\<close>

definition getLineDepth :: "parser \<Rightarrow> string \<Rightarrow> bool \<Rightarrow> error + int" where
  "getLineDepth st line multilining =
     (let spaces = length (takeWhile (\<lambda>c. c = SPC) line);
          depth = int (spaces div 2)
      in if \<not> multilining \<or> depth \<le> currentDepth st then
           (case char_at line (int spaces) of
              Inl e \<Rightarrow> Inl e
            | Inr c \<Rightarrow>
                if c = TAB then
                  Inl (OTMLException_doc (mem st) (Some (doc st))
                         ''indentation with tabs are not allowed'' (currentLine st))
                else if spaces mod 2 \<noteq> 0 then
                  Inl (OTMLException_doc (mem st) (Some (doc st))
                         ''must indent every 2 spaces'' (currentLine st))
                else Inr depth)
         else Inr depth)"

text \<open>The loop \<open>for(i = 0; i < n; ++i) currentParent = currentParent->parent()\<close>.\<close>

fun ascend :: "heap \<Rightarrow> nat \<Rightarrow> addr option \<Rightarrow> error + addr option" where
  "ascend h 0 cp = Inr cp"
| "ascend h (Suc n) cp =
     (case cp of
        None \<Rightarrow> Inl NullPointerDereference
      | Some a \<Rightarrow> ascend h n (m_parent (h ! a)))"

text \<open>The depth transition of \<open>parseLine\<close>, from the first comparison to the assignment of
  \<open>currentDepth\<close>.\<close>

definition depthTransition :: "parser \<Rightarrow> int \<Rightarrow> error + parser" where
  "depthTransition st depth =
     (if depth = currentDepth st + 1 then
        Inr (st\<lparr> currentParent := previousNode st, currentDepth := depth \<rparr>)
      else if depth < currentDepth st then
        (case ascend (mem st) (nat (currentDepth st - depth)) (currentParent st) of
           Inl e \<Rightarrow> Inl e
         | Inr cp \<Rightarrow> Inr (st\<lparr> currentParent := cp, currentDepth := depth \<rparr>))
      else if depth \<noteq> currentDepth st then
        Inl (OTMLException_doc (mem st) (Some (doc st))
               ''invalid indentation depth, are you indenting correctly?'' (currentLine st))
      else Inr (st\<lparr> currentDepth := depth \<rparr>))"

text \<open>
  The \<open>do ... while(!in.eof())\<close> loop of \<open>parseNode\<close> that collects a block scalar.  It runs
  for ever on a stream that has failed without reaching its end, so it is a partial
  function: \<open>None\<close> is the loop that does not return.  The result is the parser and the
  collected text.
\<close>

partial_function (option) multiLine :: "parser \<Rightarrow> string \<Rightarrow> (error + parser \<times> string) option" where
  "multiLine st multiLineData =
     (case tellg (inp st) of (lastPos, s1) \<Rightarrow>
      (case getNextLine (st\<lparr> inp := s1 \<rparr>) of (line, st2) \<Rightarrow>
       (case getLineDepth st2 line True of
          Inl e \<Rightarrow> Some (Inl e)
        | Inr depth \<Rightarrow>
            if depth > currentDepth st2 then
              (if eofbit (inp st2)
               then Some (Inr (st2, multiLineData @ drop (nat ((currentDepth st2 + 1) * 2)) line @ [NL]))
               else multiLine st2 (multiLineData @ drop (nat ((currentDepth st2 + 1) * 2)) line @ [NL]))
            else if trim line \<noteq> [] then
              Some (Inr (st2\<lparr> inp := seekg (inp st2) lastPos,
                              currentLine := currentLine st2 - 1 \<rparr>, multiLineData))
            else
              (if eofbit (inp st2)
               then Some (Inr (st2, multiLineData @ [NL]))
               else multiLine st2 (multiLineData @ [NL])))))"

declare multiLine.simps [code]

text \<open>
  The loop \<open>while(multiLineData[--lastPos] == '\n') multiLineData.erase(lastPos, 1)\<close>:
  the argument \<open>lastPos\<close> is the value before the decrement.
\<close>

function strip_newlines :: "string \<Rightarrow> int \<Rightarrow> error + string" where
  "strip_newlines multiLineData lastPos =
     (case char_at multiLineData (lastPos - 1) of
        Inl e \<Rightarrow> Inl e
      | Inr c \<Rightarrow>
          if c = NL
          then strip_newlines (take (nat (lastPos - 1)) multiLineData
                               @ drop (Suc (nat (lastPos - 1))) multiLineData) (lastPos - 1)
          else Inr multiLineData)"
  by pat_completeness auto
termination
  by (relation "measure (\<lambda>(s, i). nat i)") (auto simp: char_at_def split: if_splits)

declare strip_newlines.simps [simp del]

text \<open>The first part of \<open>parseNode\<close>: the tag and the value of a trimmed line, and the
  position of the first colon.\<close>

definition parseNode_split :: "string \<Rightarrow> string \<times> string \<times> nat option" where
  "parseNode_split data =
     (let dotsPos = find_first_of data (CHR '':'');
          (tag, val) =
            (if data \<noteq> [] \<and> data ! 0 = CHR ''-'' then ([], trim (drop 1 data))
             else (case dotsPos of
                     Some k \<Rightarrow> (take k data, if length data > k + 1 then drop (k + 1) data else [])
                   | None \<Rightarrow> (data, [])))
      in (trim tag, trim val, dotsPos))"

text \<open>The trailing-newline policy of \<open>parseNode\<close> on the collected text.\<close>

definition block_policy :: "string \<Rightarrow> string \<Rightarrow> error + string" where
  "block_policy val multiLineData =
     (if val = ''|'' \<or> val = ''|-'' then
        (case strip_newlines multiLineData (int (length multiLineData)) of
           Inl e \<Rightarrow> Inl e
         | Inr stripped \<Rightarrow> Inr (if val = ''|'' then stripped @ [NL] else stripped))
      else Inr multiLineData)"

text \<open>The last part of \<open>parseNode\<close>: the node is created, filled in, added to
  \<open>currentParent\<close> and recorded as \<open>previousNode\<close>.\<close>

definition parseNode_attach :: "parser \<Rightarrow> string \<Rightarrow> string \<Rightarrow> nat option \<Rightarrow> int \<Rightarrow> error + parser" where
  "parseNode_attach st tag val dotsPos nodeLine =
     (let (n, h1) = create (mem st) tag False;
          h2 = setUnique h1 n (dotsPos \<noteq> None);
          h3 = setTag h2 n tag;
          h4 = setSource h3 n (m_source (h3 ! doc st) @ '':'' @ show_int nodeLine);
          h5 = (if val = ''~'' then setNull h4 n True else setValue h4 n val)
      in case currentParent st of
           None \<Rightarrow> Inl NullPointerDereference
         | Some p \<Rightarrow> Inr (st\<lparr> mem := addChild h5 p n, previousNode := Some n \<rparr>))"

text \<open>\<open>OTMLParser::parseNode\<close>.\<close>

definition parseNode :: "parser \<Rightarrow> string \<Rightarrow> (error + parser) option" where
  "parseNode st data =
     (case parseNode_split data of (tag, val, dotsPos) \<Rightarrow>
        if val = ''|'' \<or> val = ''|-'' \<or> val = ''|+'' then
          (case multiLine st [] of
             None \<Rightarrow> None
           | Some (Inl e) \<Rightarrow> Some (Inl e)
           | Some (Inr (st1, multiLineData)) \<Rightarrow>
               (case block_policy val multiLineData of
                  Inl e \<Rightarrow> Some (Inl e)
                | Inr v \<Rightarrow> Some (parseNode_attach st1 tag v dotsPos (currentLine st))))
        else Some (parseNode_attach st tag val dotsPos (currentLine st)))"

text \<open>\<open>OTMLParser::parseLine\<close>.\<close>

definition parseLine :: "parser \<Rightarrow> string \<Rightarrow> (error + parser) option" where
  "parseLine st line =
     (case getLineDepth st line False of
        Inl e \<Rightarrow> Some (Inl e)
      | Inr depth \<Rightarrow>
          if depth = - 1 then Some (Inr st)
          else if trim line = [] then Some (Inr st)
          else if take 2 (trim line) = ''//'' then Some (Inr st)
          else (case depthTransition st depth of
                  Inl e \<Rightarrow> Some (Inl e)
                | Inr st1 \<Rightarrow> parseNode st1 (trim line)))"

text \<open>The body \<open>parseLine(getNextLine())\<close> of the loop of \<open>OTMLParser::parse\<close>, and the loop
  \<open>while(!in.eof())\<close> itself.\<close>

definition parse_step :: "parser \<Rightarrow> (error + parser) option" where
  "parse_step st = (case getNextLine st of (line, st1) \<Rightarrow> parseLine st1 line)"

partial_function (option) parse_loop :: "parser \<Rightarrow> (error + parser) option" where
  "parse_loop st =
     (if eofbit (inp st) then Some (Inr st)
      else (case parse_step st of
              None \<Rightarrow> None
            | Some (Inl e) \<Rightarrow> Some (Inl e)
            | Some (Inr st2) \<Rightarrow> parse_loop st2))"

declare parse_loop.simps [code]

text \<open>\<open>OTMLParser::parse\<close>.\<close>

definition parse :: "parser \<Rightarrow> (error + parser) option" where
  "parse st =
     (if \<not> good (inp st)
      then Some (Inl (OTMLException_doc (mem st) (Some (doc st)) ''cannot read from input stream'' (- 1)))
      else parse_loop st)"

text \<open>\<open>OTMLDocument::parse(in, source)\<close>: the new document and the store that holds it.\<close>

definition document_parse :: "heap \<Rightarrow> istream \<Rightarrow> string \<Rightarrow> (error + addr \<times> heap) option" where
  "document_parse h s source =
     (let (d, h1) = alloc h;
          h2 = setSource h1 d source
      in case parse (new_OTMLParser h2 d s) of
           None \<Rightarrow> None
         | Some (Inl e) \<Rightarrow> Some (Inl e)
         | Some (Inr st) \<Rightarrow> Some (Inr (d, mem st)))"

text \<open>A stream over a text, as \<open>std::istringstream\<close> opens it.\<close>

definition istringstream :: "string \<Rightarrow> istream" where
  "istringstream text = \<lparr> buf = text, gpos = 0, eofbit = False, failbit = False \<rparr>"

section \<open>Example stores\<close>

text \<open>
  A parent \<open>p\<close> at address 0 with the children \<open>a\<close>, \<open>a\<close> (unique) and \<open>b\<close>, and three nodes
  that are not attached: an \<open>a\<close> with the value \<open>v\<close> that is not unique, an \<open>a\<close> with the value \<open>w\<close>
  that is unique, and a \<open>c\<close>.
\<close>

definition siblings_example :: heap where
  "siblings_example =
     [new_OTMLNode\<lparr> m_tag := ''p'', m_children := [1, 2, 3] \<rparr>,
      new_OTMLNode\<lparr> m_tag := ''a'', m_parent := Some 0 \<rparr>,
      new_OTMLNode\<lparr> m_tag := ''a'', m_unique := True, m_parent := Some 0 \<rparr>,
      new_OTMLNode\<lparr> m_tag := ''b'', m_parent := Some 0 \<rparr>,
      new_OTMLNode\<lparr> m_tag := ''a'', m_value := ''v'' \<rparr>,
      new_OTMLNode\<lparr> m_tag := ''a'', m_value := ''w'', m_unique := True \<rparr>,
      new_OTMLNode\<lparr> m_tag := ''c'' \<rparr>]"

text \<open>
  The parser after the lines \<open>a\<close>, \<open>b\<close> (one level deeper) and \<open>c\<close> (two levels deeper) of a
  document \<open>f\<close>, with its fourth line read: the store and the state.
\<close>

definition nested_example :: heap where
  "nested_example =
     [new_OTMLNode\<lparr> m_source := ''f'', m_children := [1] \<rparr>,
      new_OTMLNode\<lparr> m_tag := ''a'', m_source := ''f:1'', m_parent := Some 0, m_children := [2] \<rparr>,
      new_OTMLNode\<lparr> m_tag := ''b'', m_source := ''f:2'', m_parent := Some 1, m_children := [3] \<rparr>,
      new_OTMLNode\<lparr> m_tag := ''c'', m_source := ''f:3'', m_parent := Some 2 \<rparr>]"

definition parser_example :: parser where
  "parser_example =
     \<lparr> currentDepth = 2, currentLine = 4, doc = 0, currentParent = Some 2,
       previousNode = Some 3,
       inp = \<lparr> buf = [], gpos = 0, eofbit = True, failbit = False \<rparr>,
       mem = nested_example \<rparr>"

text \<open>A document with two children: a null \<open>a\<close> and a \<open>b\<close> with the value \<open>1\<close>.\<close>

definition null_child_example :: heap where
  "null_child_example =
     [new_OTMLNode\<lparr> m_tag := ''doc'', m_children := [1, 2] \<rparr>,
      new_OTMLNode\<lparr> m_tag := ''a'', m_null := True, m_parent := Some 0 \<rparr>,
      new_OTMLNode\<lparr> m_tag := ''b'', m_value := ''1'', m_unique := True, m_parent := Some 0 \<rparr>]"



section \<open>Auxiliary definitions\<close>

text \<open>
  The loop of \<open>OTMLParser::parse\<close> run for a given number of rounds: a round on a result that
  is an error, or a parser at the end of its stream, changes nothing.  Lemma
  \<open>parse_loop_steps\<close> below relates it to \<open>parse_loop\<close>; it is used to evaluate the parser on
  concrete documents.
\<close>

definition next_step :: "(error + parser) option \<Rightarrow> (error + parser) option" where
  "next_step r =
     (case r of
        Some (Inr st) \<Rightarrow> if eofbit (inp st) then r else parse_step st
      | _ \<Rightarrow> r)"

fun parse_steps :: "nat \<Rightarrow> parser \<Rightarrow> (error + parser) option" where
  "parse_steps 0 st = Some (Inr st)"
| "parse_steps (Suc n) st = next_step (parse_steps n st)"

text \<open>
  The structure of a node and of everything below it: tag, value, flags and the children
  in their order.  \<open>tree_of\<close> reads it off the store; like \<open>emitNode\<close> it follows the
  pointers, and gives \<open>None\<close> when its bound is reached or an address is not allocated.
\<close>

datatype tree = Tree (t_tag: string) (t_value: string) (t_unique: bool) (t_null: bool)
  (t_children: "tree list")



text \<open>
  The line of a node whose value holds no newline, without its indentation, and the lines
  of a node with everything below it, as the emitter writes them.
\<close>

definition body :: "tree \<Rightarrow> string" where
  "body t =
     (if t_tag t \<noteq> []
      then t_tag t @ (if t_value t \<noteq> [] \<or> t_unique t \<or> t_null t then '':'' else [])
      else ''-'')
     @ (if t_null t then '' ~'' else if t_value t \<noteq> [] then '' '' @ t_value t else [])"


fun join_lines :: "string list \<Rightarrow> string" where
  "join_lines [] = []"
| "join_lines [l] = l"
| "join_lines (l # ls) = l @ NL # join_lines ls"

text \<open>
  The unique flag the parser gives the node it reads back from such a line: whether the
  line holds a colon.
\<close>

definition parsed_unique :: "tree \<Rightarrow> bool" where
  "parsed_unique t =
     (if t_tag t \<noteq> [] then t_value t \<noteq> [] \<or> t_unique t \<or> t_null t
      else CHR '':'' \<in> set (t_value t))"



definition sibling_ok :: "string \<times> bool \<Rightarrow> string \<times> bool \<Rightarrow> bool" where
  "sibling_ok e k = (fst k \<noteq> [] \<and> fst e = fst k \<longrightarrow> \<not> snd e \<and> \<not> snd k)"

fun sib_ok :: "(string \<times> bool) list \<Rightarrow> (string \<times> bool) list \<Rightarrow> bool" where
  "sib_ok es [] = True"
| "sib_ok es (k # ks) = ((\<forall>e\<in>set es. sibling_ok e k) \<and> sib_ok (es @ [k]) ks)"




text \<open>What the parser reads back from the lines of a tree: the same tree with the
  unique flags of the parser.\<close>

fun parsed :: "tree \<Rightarrow> tree" where
  "parsed (Tree g v u z ts) = Tree g v (parsed_unique (Tree g v u z ts)) z (map parsed ts)"







text \<open>The lines of a text: the pieces between its newlines.  A text that ends with a newline
  has an empty last line.\<close>

fun text_lines :: "string \<Rightarrow> string list" where
  "text_lines [] = [[]]"
| "text_lines (c # cs) =
     (case text_lines cs of
        [] \<Rightarrow> [[c]]
      | l # ls \<Rightarrow> if c = NL then [] # l # ls else (c # l) # ls)"

text \<open>
  \<open>line_start text k\<close> is the position behind the first \<open>k\<close> lines of the text and their
  newlines.  \<open>lines_read s k\<close>: the stream stands there, at the start of line \<open>k + 1\<close> of its
  characters.  \<open>counts_lines st\<close>: as long as the stream is good, the counter \<open>currentLine\<close> of
  the parser is the number of lines that lie before the read position.
\<close>

definition line_start :: "string \<Rightarrow> nat \<Rightarrow> nat" where
  "line_start text k = length (concat (map (\<lambda>l. l @ [NL]) (take k (text_lines text))))"

definition lines_read :: "istream \<Rightarrow> nat \<Rightarrow> bool" where
  "lines_read s k = (k < length (text_lines (buf s)) \<and> gpos s = line_start (buf s) k)"

definition counts_lines :: "parser \<Rightarrow> bool" where
  "counts_lines st =
     (good (inp st) \<longrightarrow> 0 \<le> currentLine st \<and> lines_read (inp st) (nat (currentLine st)))"

text \<open>
  \<open>reads st0 st\<close>: the parser comes from \<open>st0\<close> to \<open>st\<close> by rounds of the loop of \<open>parse\<close>, by
  reading a line and by depth transitions.  These are the steps by which \<open>parse\<close> reaches
  the states in which it reads a line: the loop of \<open>parse\<close> reads after whole rounds, and the
  loop of \<open>parseNode\<close> that collects a block scalar reads after the line of the node has been
  read and its depth transition made, and then after each line it has read.
\<close>

inductive reads :: "parser \<Rightarrow> parser \<Rightarrow> bool" for st0 where
  start: "reads st0 st0"
| round: "reads st0 st \<Longrightarrow> parse_step st = Some (Inr st') \<Longrightarrow> reads st0 st'"
| line: "reads st0 st \<Longrightarrow> getNextLine st = (l, st') \<Longrightarrow> reads st0 st'"
| depth: "reads st0 st \<Longrightarrow> depthTransition st d = Inr st' \<Longrightarrow> reads st0 st'"

section \<open>Reading the store after an update\<close>

lemma length_setters [simp]:
  "length (setTag h a t) = length h"
  "length (setValue h a v) = length h"
  "length (setNull h a b) = length h"
  "length (setUnique h a b) = length h"
  "length (setParent h a q) = length h"
  "length (setSource h a s) = length h"
  "length (setChildren h a cs) = length h"
  by (simp_all add: setTag_def setValue_def setNull_def setUnique_def setParent_def
        setSource_def setChildren_def)

lemma nth_upd_field:
  "f ((h[a := g (h ! a)]) ! x) = (if x = a \<and> a < length h then f (g (h ! a)) else f (h ! x))"
  by (cases "a < length h") (auto simp: list_update_beyond)

lemma setParent_fields [simp]:
  "m_tag (setParent h a q ! x) = m_tag (h ! x)"
  "m_value (setParent h a q ! x) = m_value (h ! x)"
  "m_unique (setParent h a q ! x) = m_unique (h ! x)"
  "m_null (setParent h a q ! x) = m_null (h ! x)"
  "m_source (setParent h a q ! x) = m_source (h ! x)"
  "m_children (setParent h a q ! x) = m_children (h ! x)"
  "m_parent (setParent h a q ! x) = (if x = a \<and> a < length h then q else m_parent (h ! x))"
  unfolding setParent_def by (simp_all add: nth_upd_field)

lemma setChildren_fields [simp]:
  "m_tag (setChildren h a cs ! x) = m_tag (h ! x)"
  "m_value (setChildren h a cs ! x) = m_value (h ! x)"
  "m_unique (setChildren h a cs ! x) = m_unique (h ! x)"
  "m_null (setChildren h a cs ! x) = m_null (h ! x)"
  "m_source (setChildren h a cs ! x) = m_source (h ! x)"
  "m_parent (setChildren h a cs ! x) = m_parent (h ! x)"
  "m_children (setChildren h a cs ! x) = (if x = a \<and> a < length h then cs else m_children (h ! x))"
  unfolding setChildren_def by (simp_all add: nth_upd_field)

lemma setUnique_fields [simp]:
  "m_tag (setUnique h a b ! x) = m_tag (h ! x)"
  "m_value (setUnique h a b ! x) = m_value (h ! x)"
  "m_null (setUnique h a b ! x) = m_null (h ! x)"
  "m_source (setUnique h a b ! x) = m_source (h ! x)"
  "m_parent (setUnique h a b ! x) = m_parent (h ! x)"
  "m_children (setUnique h a b ! x) = m_children (h ! x)"
  "m_unique (setUnique h a b ! x) = (if x = a \<and> a < length h then b else m_unique (h ! x))"
  unfolding setUnique_def by (simp_all add: nth_upd_field)

lemma setTag_fields [simp]:
  "m_value (setTag h a t ! x) = m_value (h ! x)"
  "m_unique (setTag h a t ! x) = m_unique (h ! x)"
  "m_null (setTag h a t ! x) = m_null (h ! x)"
  "m_source (setTag h a t ! x) = m_source (h ! x)"
  "m_parent (setTag h a t ! x) = m_parent (h ! x)"
  "m_children (setTag h a t ! x) = m_children (h ! x)"
  "m_tag (setTag h a t ! x) = (if x = a \<and> a < length h then t else m_tag (h ! x))"
  unfolding setTag_def by (simp_all add: nth_upd_field)

lemma setValue_fields [simp]:
  "m_tag (setValue h a v ! x) = m_tag (h ! x)"
  "m_unique (setValue h a v ! x) = m_unique (h ! x)"
  "m_null (setValue h a v ! x) = m_null (h ! x)"
  "m_source (setValue h a v ! x) = m_source (h ! x)"
  "m_parent (setValue h a v ! x) = m_parent (h ! x)"
  "m_children (setValue h a v ! x) = m_children (h ! x)"
  "m_value (setValue h a v ! x) = (if x = a \<and> a < length h then v else m_value (h ! x))"
  unfolding setValue_def by (simp_all add: nth_upd_field)

lemma setNull_fields [simp]:
  "m_tag (setNull h a b ! x) = m_tag (h ! x)"
  "m_unique (setNull h a b ! x) = m_unique (h ! x)"
  "m_value (setNull h a b ! x) = m_value (h ! x)"
  "m_source (setNull h a b ! x) = m_source (h ! x)"
  "m_parent (setNull h a b ! x) = m_parent (h ! x)"
  "m_children (setNull h a b ! x) = m_children (h ! x)"
  "m_null (setNull h a b ! x) = (if x = a \<and> a < length h then b else m_null (h ! x))"
  unfolding setNull_def by (simp_all add: nth_upd_field)

lemma setSource_fields [simp]:
  "m_tag (setSource h a s ! x) = m_tag (h ! x)"
  "m_unique (setSource h a s ! x) = m_unique (h ! x)"
  "m_value (setSource h a s ! x) = m_value (h ! x)"
  "m_null (setSource h a s ! x) = m_null (h ! x)"
  "m_parent (setSource h a s ! x) = m_parent (h ! x)"
  "m_children (setSource h a s ! x) = m_children (h ! x)"
  "m_source (setSource h a s ! x) = (if x = a \<and> a < length h then s else m_source (h ! x))"
  unfolding setSource_def by (simp_all add: nth_upd_field)

lemma setters_nth_neq [simp]:
  "a \<noteq> b \<Longrightarrow> setTag h b t ! a = h ! a"
  "a \<noteq> b \<Longrightarrow> setValue h b v ! a = h ! a"
  "a \<noteq> b \<Longrightarrow> setNull h b z ! a = h ! a"
  "a \<noteq> b \<Longrightarrow> setUnique h b u ! a = h ! a"
  "a \<noteq> b \<Longrightarrow> setParent h b q ! a = h ! a"
  "a \<noteq> b \<Longrightarrow> setSource h b s ! a = h ! a"
  "a \<noteq> b \<Longrightarrow> setChildren h b cs ! a = h ! a"
  by (simp_all add: setTag_def setValue_def setNull_def setUnique_def setParent_def
        setSource_def setChildren_def)


section \<open>Running the parser for a number of rounds\<close>

lemma parse_loop_steps:
  "parse_loop st = (case parse_steps n st of Some (Inr s) \<Rightarrow> parse_loop s | r \<Rightarrow> r)"
proof (induction n)
  case 0
  show ?case by simp
next
  case (Suc n)
  show ?case
  proof (cases "parse_steps n st")
    case None
    with Suc show ?thesis by (simp add: next_step_def)
  next
    case (Some r)
    show ?thesis
    proof (cases r)
      case (Inl e)
      with Some Suc show ?thesis by (simp add: next_step_def)
    next
      case (Inr s)
      show ?thesis
      proof (cases "eofbit (inp s)")
        case True
        with Inr Some Suc show ?thesis by (simp add: next_step_def)
      next
        case False
        have "parse_loop s = (case parse_step s of Some (Inr s2) \<Rightarrow> parse_loop s2 | r \<Rightarrow> r)"
          using False by (subst parse_loop.simps) (simp split: option.splits sum.splits)
        with False Inr Some Suc show ?thesis by (simp add: next_step_def)
      qed
    qed
  qed
qed

lemma parse_loop_finished:
  "parse_steps n st = Some (Inr s) \<Longrightarrow> eofbit (inp s) \<Longrightarrow> parse_loop st = Some (Inr s)"
  by (subst parse_loop_steps [of st n]) (simp add: parse_loop.simps)

lemma parse_loop_failed:
  "parse_steps n st = Some (Inl e) \<Longrightarrow> parse_loop st = Some (Inl e)"
  by (subst parse_loop_steps [of st n]) simp

lemma document_parse_finished:
  assumes "good s"
      and "parse_steps n (new_OTMLParser (setSource (h @ [new_OTMLNode]) (length h) src) (length h) s)
             = Some (Inr st)"
      and "eofbit (inp st)"
  shows "document_parse h s src = Some (Inr (length h, mem st))"
  using assms parse_loop_finished [OF assms(2,3)]
  by (simp add: document_parse_def alloc_def parse_def new_OTMLParser_def)

lemma document_parse_failed:
  assumes "good s"
      and "parse_steps n (new_OTMLParser (setSource (h @ [new_OTMLNode]) (length h) src) (length h) s)
             = Some (Inl e)"
  shows "document_parse h s src = Some (Inl e)"
  using assms parse_loop_failed [OF assms(2)]
  by (simp add: document_parse_def alloc_def parse_def new_OTMLParser_def)

lemma document_parse_observe:
  assumes "good s"
      and "case parse_steps n (new_OTMLParser (setSource (h @ [new_OTMLNode]) (length h) src) (length h) s) of
             Some (Inr st) \<Rightarrow> eofbit (inp st) \<and> obs (length h, mem st) = v
           | _ \<Rightarrow> False"
  shows "map_option (map_sum id obs) (document_parse h s src) = Some (Inr v)"
proof -
  from assms(2) obtain st where
    st: "parse_steps n (new_OTMLParser (setSource (h @ [new_OTMLNode]) (length h) src) (length h) s)
           = Some (Inr st)"
    and fin: "eofbit (inp st)" and v: "obs (length h, mem st) = v"
    by (auto split: option.splits sum.splits)
  from document_parse_finished [OF assms(1) st fin] v show ?thesis
    by simp
qed

section \<open>The value codec and the typed accessors\<close>

lemma cast_string_bool_table:
  "cast_string_bool s =
     (if s = ''true'' then Some True else if s = ''false'' then Some False
      else if s = ''yes'' then Some True else if s = ''no'' then Some False
      else if s = ''on'' then Some True else if s = ''off'' then Some False
      else if s = ''1'' then Some True else if s = ''0'' then Some False else None)"
  unfolding cast_string_bool_def
  apply (subst cast_string_bool_from.simps)
  apply (subst cast_string_bool_from.simps)
  apply (subst cast_string_bool_from.simps)
  apply (subst cast_string_bool_from.simps)
  apply (subst cast_string_bool_from.simps)
  apply (simp add: validNames_def)
  done

text \<open>
  Claim C6.  The conversion of a string to a boolean succeeds exactly on the literal table:
  \<open>true\<close>, \<open>yes\<close>, \<open>on\<close>, \<open>1\<close> give true and \<open>false\<close>, \<open>no\<close>, \<open>off\<close>, \<open>0\<close> give false; on any
  other token \<open>value<bool>()\<close> raises the exception of a failed cast; a boolean is
  rendered as \<open>true\<close> or \<open>false\<close>, so \<open>write(true)\<close> stores the string \<open>true\<close>.
\<close>

theorem bool_codec_literal_table:
  "(cast_string_bool s = Some True \<longleftrightarrow> s \<in> set [''true'', ''yes'', ''on'', ''1'']) \<and>
   (cast_string_bool s = Some False \<longleftrightarrow> s \<in> set [''false'', ''no'', ''off'', ''0'']) \<and>
   (s \<notin> set [''true'', ''yes'', ''on'', ''1'', ''false'', ''no'', ''off'', ''0''] \<and> m_value (h ! a) = s
      \<longrightarrow> node_value cast_string_bool h a = Inl (OTMLException_node h a ''failed to cast node value'')) \<and>
   (m_value (h ! a) \<in> set [''true'', ''yes'', ''on'', ''1''] \<longrightarrow> node_value cast_string_bool h a = Inr True) \<and>
   (m_value (h ! a) \<in> set [''false'', ''no'', ''off'', ''0''] \<longrightarrow> node_value cast_string_bool h a = Inr False) \<and>
   cast_bool_string b = Some (if b then ''true'' else ''false'') \<and>
   (a < length h \<longrightarrow>
      (\<exists>h'. node_write cast_bool_string h a True = Some h' \<and> m_value (h' ! a) = ''true''))"
  by (auto simp: cast_string_bool_table node_value_def cast_bool_string_def node_write_def setValue_def)

theorem bool_codec_literal_table_witness:
  "cast_string_bool ''yes'' = Some True \<and> cast_string_bool ''off'' = Some False \<and>
   node_value cast_string_bool [new_OTMLNode\<lparr> m_value := ''maybe'' \<rparr>] 0
     = Inl (OTMLException ''OTML error: failed to cast node value'') \<and>
   node_value cast_string_bool [new_OTMLNode\<lparr> m_value := ''1'' \<rparr>] 0 = Inr True \<and>
   (\<exists>h'. node_write cast_bool_string [new_OTMLNode] 0 True = Some h' \<and> m_value (h' ! 0) = ''true'')"
  using bool_codec_literal_table [of "''yes''" "[new_OTMLNode\<lparr> m_value := ''maybe'' \<rparr>]" 0 True]
        bool_codec_literal_table [of "''off''" "[new_OTMLNode\<lparr> m_value := ''1'' \<rparr>]" 0 True]
        bool_codec_literal_table [of "''maybe''" "[new_OTMLNode\<lparr> m_value := ''maybe'' \<rparr>]" 0 True]
        bool_codec_literal_table [of "''maybe''" "[new_OTMLNode]" 0 True]
  by (simp add: new_OTMLNode_def OTMLException_node_def)

lemma find_first_match:
  "\<forall>x\<in>set pre. \<not> P x \<Longrightarrow> P c \<Longrightarrow> find P (pre @ c # post) = Some c"
  by (induction pre) auto

text \<open>
  Claim C7.  \<open>valueAt(t, def)\<close> returns \<open>def\<close> when no child has the tag \<open>t\<close>, and when the
  children with the tag \<open>t\<close> are null; otherwise it returns the value of the first child
  with the tag that is not null, cast to the requested type, and a failure of that cast is
  raised, not replaced by \<open>def\<close>.
\<close>

theorem valueAt_default:
  "((\<forall>c\<in>set (m_children (h ! a)). m_tag (h ! c) \<noteq> t) \<longrightarrow> valueAt_def cast h a t def = Inr def) \<and>
   ((\<forall>c\<in>set (m_children (h ! a)). m_tag (h ! c) = t \<longrightarrow> m_null (h ! c))
      \<longrightarrow> valueAt_def cast h a t def = Inr def) \<and>
   (m_children (h ! a) = pre @ c # post \<and> m_tag (h ! c) = t \<and> \<not> m_null (h ! c) \<and>
    (\<forall>x\<in>set pre. m_tag (h ! x) = t \<longrightarrow> m_null (h ! x))
      \<longrightarrow> valueAt_def cast h a t def =
            (case cast (m_value (h ! c)) of
               Some r \<Rightarrow> Inr r
             | None \<Rightarrow> Inl (OTMLException_node h c ''failed to cast node value'')))"
proof (intro conjI impI)
  assume "\<forall>c\<in>set (m_children (h ! a)). m_tag (h ! c) \<noteq> t"
  then have "get h a t = None"
    by (auto simp: get_def find_None_iff)
  then show "valueAt_def cast h a t def = Inr def"
    by (simp add: valueAt_def_def)
next
  assume "\<forall>c\<in>set (m_children (h ! a)). m_tag (h ! c) = t \<longrightarrow> m_null (h ! c)"
  then have "get h a t = None"
    by (auto simp: get_def find_None_iff)
  then show "valueAt_def cast h a t def = Inr def"
    by (simp add: valueAt_def_def)
next
  assume *: "m_children (h ! a) = pre @ c # post \<and> m_tag (h ! c) = t \<and> \<not> m_null (h ! c) \<and>
    (\<forall>x\<in>set pre. m_tag (h ! x) = t \<longrightarrow> m_null (h ! x))"
  then have "get h a t = Some c"
    unfolding get_def by (auto intro!: find_first_match)
  with * show "valueAt_def cast h a t def =
            (case cast (m_value (h ! c)) of
               Some r \<Rightarrow> Inr r
             | None \<Rightarrow> Inl (OTMLException_node h c ''failed to cast node value''))"
    by (simp add: valueAt_def_def node_value_def split: option.splits)
qed

text \<open>A node with three children: a null \<open>n\<close>, an \<open>n\<close> with the value \<open>maybe\<close>, and a null
  \<open>z\<close>.\<close>

theorem valueAt_default_witness:
  "valueAt_def cast_string_string
     [new_OTMLNode\<lparr> m_children := [1, 2, 3] \<rparr>,
      new_OTMLNode\<lparr> m_tag := ''n'', m_null := True \<rparr>,
      new_OTMLNode\<lparr> m_tag := ''n'', m_value := ''maybe'' \<rparr>,
      new_OTMLNode\<lparr> m_tag := ''z'', m_null := True \<rparr>] 0 ''missingTag'' ''fallback'' = Inr ''fallback'' \<and>
   valueAt_def cast_string_string
     [new_OTMLNode\<lparr> m_children := [1, 2, 3] \<rparr>,
      new_OTMLNode\<lparr> m_tag := ''n'', m_null := True \<rparr>,
      new_OTMLNode\<lparr> m_tag := ''n'', m_value := ''maybe'' \<rparr>,
      new_OTMLNode\<lparr> m_tag := ''z'', m_null := True \<rparr>] 0 ''z'' ''fallback'' = Inr ''fallback'' \<and>
   valueAt_def cast_string_bool
     [new_OTMLNode\<lparr> m_children := [1, 2, 3] \<rparr>,
      new_OTMLNode\<lparr> m_tag := ''n'', m_null := True \<rparr>,
      new_OTMLNode\<lparr> m_tag := ''n'', m_value := ''maybe'' \<rparr>,
      new_OTMLNode\<lparr> m_tag := ''z'', m_null := True \<rparr>] 0 ''n'' True
     = Inl (OTMLException ''OTML error: failed to cast node value'')"
  using valueAt_default [of "[new_OTMLNode\<lparr> m_children := [1, 2, 3] \<rparr>,
      new_OTMLNode\<lparr> m_tag := ''n'', m_null := True \<rparr>,
      new_OTMLNode\<lparr> m_tag := ''n'', m_value := ''maybe'' \<rparr>,
      new_OTMLNode\<lparr> m_tag := ''z'', m_null := True \<rparr>]" 0 "''missingTag''" cast_string_string "''fallback''" "[]" 1 "[2, 3]"]
    valueAt_default [of "[new_OTMLNode\<lparr> m_children := [1, 2, 3] \<rparr>,
      new_OTMLNode\<lparr> m_tag := ''n'', m_null := True \<rparr>,
      new_OTMLNode\<lparr> m_tag := ''n'', m_value := ''maybe'' \<rparr>,
      new_OTMLNode\<lparr> m_tag := ''z'', m_null := True \<rparr>]" 0 "''z''" cast_string_string "''fallback''" "[]" 1 "[2, 3]"]
    valueAt_default [of "[new_OTMLNode\<lparr> m_children := [1, 2, 3] \<rparr>,
      new_OTMLNode\<lparr> m_tag := ''n'', m_null := True \<rparr>,
      new_OTMLNode\<lparr> m_tag := ''n'', m_value := ''maybe'' \<rparr>,
      new_OTMLNode\<lparr> m_tag := ''z'', m_null := True \<rparr>]" 0 "''n''" cast_string_bool True "[1]" 2 "[3]"]
  by (simp add: new_OTMLNode_def OTMLException_node_def cast_string_bool_table)

section \<open>Adding a child\<close>

lemma erase_same_tag_result:
  "erase_same_tag h nc xs = (h', kept) \<Longrightarrow>
     kept = filter (\<lambda>n. \<not> (n \<noteq> nc \<and> m_tag (h ! n) = m_tag (h ! nc))) xs \<and>
     length h' = length h \<and>
     (\<forall>x. m_tag (h' ! x) = m_tag (h ! x) \<and> m_value (h' ! x) = m_value (h ! x) \<and>
          m_unique (h' ! x) = m_unique (h ! x) \<and> m_null (h' ! x) = m_null (h ! x) \<and>
          m_source (h' ! x) = m_source (h ! x) \<and> m_children (h' ! x) = m_children (h ! x) \<and>
          m_parent (h' ! x) =
            (if x \<in> set xs \<and> x \<noteq> nc \<and> m_tag (h ! x) = m_tag (h ! nc) \<and> x < length h
             then None else m_parent (h ! x)))"
proof (induction xs arbitrary: h h' kept)
  case Nil
  then show ?case by simp
next
  case (Cons n rest)
  show ?case
  proof (cases "n \<noteq> nc \<and> m_tag (h ! n) = m_tag (h ! nc)")
    case True
    with Cons.prems have "erase_same_tag (setParent h n None) nc rest = (h', kept)"
      by simp
    from Cons.IH [OF this] True show ?thesis
      by auto
  next
    case False
    with Cons.prems obtain k where
      r: "erase_same_tag h nc rest = (h', k)" and k: "kept = n # k"
      by (auto split: prod.splits)
    from Cons.IH [OF r] False k show ?thesis
      by auto
  qed
qed

lemma std_find_takeWhile:
  "n \<in> set xs \<Longrightarrow> std_find xs n = Some (length (takeWhile (\<lambda>x. x \<noteq> n) xs))"
  by (induction xs) auto

lemma find_takeWhile:
  "\<exists>n\<in>set xs. P n \<Longrightarrow> find P xs = Some (xs ! length (takeWhile (\<lambda>x. \<not> P x) xs))"
  by (induction xs) auto

lemma find_None_no_match: "\<not> (\<exists>n\<in>set xs. P n) \<Longrightarrow> find P xs = None"
  by (simp add: find_None_iff)

lemma first_match_holds:
  "\<exists>n\<in>set xs. P n \<Longrightarrow>
     length (takeWhile (\<lambda>x. \<not> P x) xs) < length xs \<and> P (xs ! length (takeWhile (\<lambda>x. \<not> P x) xs))"
  by (induction xs) auto

lemma takeWhile_first_occurrence:
  assumes "\<exists>n\<in>set xs. P n"
  shows "takeWhile (\<lambda>x. x \<noteq> xs ! length (takeWhile (\<lambda>x. \<not> P x) xs)) xs = takeWhile (\<lambda>x. \<not> P x) xs"
  using assms
proof (induction xs)
  case Nil
  then show ?case by simp
next
  case (Cons a xs)
  show ?case
  proof (cases "P a")
    case True
    then show ?thesis by simp
  next
    case False
    with Cons.prems have ex: "\<exists>n\<in>set xs. P n" by auto
    from first_match_holds [OF ex] False
    have "a \<noteq> xs ! length (takeWhile (\<lambda>x. \<not> P x) xs)" by auto
    with Cons.IH [OF ex] False show ?thesis by simp
  qed
qed


lemma addChild_collapse:
  assumes p: "p < length h" and nc: "newChild < length h"
      and fresh: "newChild \<notin> set (m_children (h ! p))"
      and tagged: "hasTag (h ! newChild)"
      and ex: "\<exists>n\<in>set (m_children (h ! p)). addChild_match h newChild n"
  defines "pre \<equiv> takeWhile (\<lambda>n. \<not> addChild_match h newChild n) (m_children (h ! p))"
  defines "post \<equiv> drop (Suc (length pre)) (m_children (h ! p))"
  defines "other \<equiv> (\<lambda>n. m_tag (h ! n) \<noteq> m_tag (h ! newChild))"
  defines "h' \<equiv> addChild h p newChild"
  shows "m_children (h' ! p) = filter other pre @ [newChild] @ filter other post"
    and "m_unique (h' ! newChild)"
    and "m_parent (h' ! newChild) = Some p"
    and "length h' = length h"
    and "\<forall>x. m_tag (h' ! x) = m_tag (h ! x) \<and> m_value (h' ! x) = m_value (h ! x) \<and>
             m_null (h' ! x) = m_null (h ! x) \<and> m_source (h' ! x) = m_source (h ! x) \<and>
             (x \<noteq> p \<longrightarrow> m_children (h' ! x) = m_children (h ! x)) \<and>
             (x \<noteq> newChild \<longrightarrow> m_unique (h' ! x) = m_unique (h ! x))"
proof -
  let ?cs = "m_children (h ! p)"
  let ?M = "addChild_match h newChild"
  let ?i = "length pre"
  let ?n = "?cs ! ?i"
  from first_match_holds [OF ex] have i: "?i < length ?cs" and Mn: "?M ?n"
    by (simp_all add: pre_def)
  have found: "find ?M ?cs = Some ?n"
    using find_takeWhile [OF ex] by (simp add: pre_def)
  have n_in: "?n \<in> set ?cs" using i by simp
  have idx: "std_find ?cs ?n = Some ?i"
    using std_find_takeWhile [OF n_in] takeWhile_first_occurrence [OF ex]
    by (simp add: pre_def)
  have pre_take: "take ?i ?cs = pre"
    unfolding pre_def by (rule takeWhile_eq_take [symmetric])
  let ?h1 = "setUnique h newChild True"
  let ?h2 = "setParent (setParent ?h1 ?n None) newChild (Some p)"
  let ?ins = "pre @ [newChild] @ post"
  have rc: "snd (replaceChild ?h1 p ?n newChild) = setChildren ?h2 p ?ins"
    using idx i pre_take by (simp add: replaceChild_def Let_def post_def min_def)
  let ?h2' = "setChildren ?h2 p ?ins"
  obtain h3 kept where er: "erase_same_tag ?h2' newChild ?ins = (h3, kept)"
    by (cases "erase_same_tag ?h2' newChild ?ins") auto
  note R = erase_same_tag_result [OF er]
  have h': "h' = setChildren h3 p kept"
    using found tagged rc er p by (simp add: h'_def addChild_def Let_def)
  have in_cs: "set pre \<subseteq> set ?cs" "set post \<subseteq> set ?cs"
    by (auto simp: pre_def post_def dest: set_takeWhileD in_set_dropD)
  have keep_cs: "\<And>xs. set xs \<subseteq> set ?cs \<Longrightarrow>
      filter (\<lambda>n. \<not> (n \<noteq> newChild \<and> m_tag (?h2' ! n) = m_tag (?h2' ! newChild))) xs = filter other xs"
    using fresh by (intro filter_cong) (auto simp: other_def)
  have kept: "kept = filter other pre @ [newChild] @ filter other post"
    using R keep_cs [OF in_cs(1)] keep_cs [OF in_cs(2)] by simp
  from R have len3: "length h3 = length h" by simp
  show "m_children (h' ! p) = filter other pre @ [newChild] @ filter other post"
    using h' kept p len3 by simp
  show "m_unique (h' ! newChild)"
    using h' R nc by simp
  show "m_parent (h' ! newChild) = Some p"
    using h' R nc by simp
  show "length h' = length h"
    using h' len3 by simp
  show "\<forall>x. m_tag (h' ! x) = m_tag (h ! x) \<and> m_value (h' ! x) = m_value (h ! x) \<and>
             m_null (h' ! x) = m_null (h ! x) \<and> m_source (h' ! x) = m_source (h ! x) \<and>
             (x \<noteq> p \<longrightarrow> m_children (h' ! x) = m_children (h ! x)) \<and>
             (x \<noteq> newChild \<longrightarrow> m_unique (h' ! x) = m_unique (h ! x))"
    using h' R by simp
qed

lemma addChild_append:
  assumes "\<not> (hasTag (h ! newChild) \<and> (\<exists>n\<in>set (m_children (h ! p)). addChild_match h newChild n))"
  shows "addChild h p newChild
           = setParent (setChildren h p (m_children (h ! p) @ [newChild])) newChild (Some p)"
proof -
  have "(if hasTag (h ! newChild)
         then find (addChild_match h newChild) (m_children (h ! p)) else None) = None"
    using assms by (auto simp: find_None_iff)
  then show ?thesis
    by (simp add: addChild_def)
qed

text \<open>
  Claim C2, as the code has it.  \<open>newChild\<close> has a tag and is not yet a child of \<open>p\<close>.
  If a child of \<open>p\<close> has the tag of \<open>newChild\<close> and one of the two is unique, then \<open>addChild\<close>
  marks \<open>newChild\<close> unique, puts it in the place of the first such child and removes every
  other child with the tag: one child with the tag remains, it is \<open>newChild\<close> with its
  value and with \<open>p\<close> as parent, and its index is the index of the first match less the
  number of children with the tag before the first match.  That number is zero when
  \<open>newChild\<close> was unique before the call, so then the index is the one of the first match.
  Otherwise \<open>newChild\<close> is appended after the children, which keep their order, and gets
  \<open>p\<close> as parent.
\<close>

theorem addChild_unique_collapse:
  assumes p: "p < length h" and nc: "newChild < length h"
      and fresh: "newChild \<notin> set (m_children (h ! p))"
      and tagged: "hasTag (h ! newChild)"
  shows
    "(let cs = m_children (h ! p);
          pre = takeWhile (\<lambda>n. \<not> (m_tag (h ! n) = m_tag (h ! newChild) \<and>
                                   (m_unique (h ! n) \<or> m_unique (h ! newChild)))) cs;
          post = drop (Suc (length pre)) cs;
          other = (\<lambda>n. m_tag (h ! n) \<noteq> m_tag (h ! newChild));
          h' = addChild h p newChild
      in ((\<exists>n\<in>set cs. m_tag (h ! n) = m_tag (h ! newChild) \<and>
                        (m_unique (h ! n) \<or> m_unique (h ! newChild))) \<longrightarrow>
            m_children (h' ! p) = filter other pre @ [newChild] @ filter other post \<and>
            m_unique (h' ! newChild) \<and> m_parent (h' ! newChild) = Some p \<and>
            m_value (h' ! newChild) = m_value (h ! newChild) \<and>
            length (filter (\<lambda>n. m_tag (h' ! n) = m_tag (h' ! newChild)) (m_children (h' ! p))) = 1 \<and>
            m_children (h' ! p)
              ! (length pre - length (filter (\<lambda>n. m_tag (h ! n) = m_tag (h ! newChild)) pre))
              = newChild \<and>
            (m_unique (h ! newChild) \<longrightarrow> m_children (h' ! p) ! length pre = newChild))
        \<and> (\<not> (\<exists>n\<in>set cs. m_tag (h ! n) = m_tag (h ! newChild) \<and>
                          (m_unique (h ! n) \<or> m_unique (h ! newChild))) \<longrightarrow>
            m_children (h' ! p) = cs @ [newChild] \<and> m_parent (h' ! newChild) = Some p \<and>
            m_unique (h' ! newChild) = m_unique (h ! newChild) \<and>
            m_value (h' ! newChild) = m_value (h ! newChild)))"
proof -
  let ?cs = "m_children (h ! p)"
  let ?M = "addChild_match h newChild"
  let ?pre = "takeWhile (\<lambda>n. \<not> ?M n) ?cs"
  let ?post = "drop (Suc (length ?pre)) ?cs"
  let ?other = "\<lambda>n. m_tag (h ! n) \<noteq> m_tag (h ! newChild)"
  let ?same = "\<lambda>n. m_tag (h ! n) = m_tag (h ! newChild)"
  let ?h' = "addChild h p newChild"
  have collapse: "m_children (?h' ! p) = filter ?other ?pre @ [newChild] @ filter ?other ?post \<and>
            m_unique (?h' ! newChild) \<and> m_parent (?h' ! newChild) = Some p \<and>
            m_value (?h' ! newChild) = m_value (h ! newChild) \<and>
            length (filter (\<lambda>n. m_tag (?h' ! n) = m_tag (?h' ! newChild)) (m_children (?h' ! p))) = 1 \<and>
            m_children (?h' ! p) ! (length ?pre - length (filter ?same ?pre)) = newChild \<and>
            (m_unique (h ! newChild) \<longrightarrow> m_children (?h' ! p) ! length ?pre = newChild)"
    if ex: "\<exists>n\<in>set ?cs. ?M n"
  proof -
    note C = addChild_collapse [OF p nc fresh tagged ex]
    have kids: "m_children (?h' ! p) = filter ?other ?pre @ [newChild] @ filter ?other ?post"
      by (rule C(1))
    have tags: "\<And>x. m_tag (?h' ! x) = m_tag (h ! x)"
      using C(5) by simp
    have one: "length (filter (\<lambda>n. m_tag (?h' ! n) = m_tag (?h' ! newChild)) (m_children (?h' ! p))) = 1"
      by (simp add: kids tags)
    have "length (filter ?same ?pre) + length (filter ?other ?pre) = length ?pre"
      using sum_length_filter_compl [of ?same ?pre] by simp
    then have idx: "length ?pre - length (filter ?same ?pre) = length (filter ?other ?pre)"
      by simp
    have at_idx: "m_children (?h' ! p) ! (length ?pre - length (filter ?same ?pre)) = newChild"
      unfolding idx kids by (simp add: nth_append)
    have uniq: "m_children (?h' ! p) ! length ?pre = newChild" if u: "m_unique (h ! newChild)"
    proof -
      have "\<forall>n\<in>set ?pre. ?other n"
        using u by (auto dest!: set_takeWhileD simp: addChild_match_def)
      then have "filter ?other ?pre = ?pre"
        by (simp add: filter_id_conv)
      then show ?thesis
        unfolding kids by (simp add: nth_append)
    qed
    from kids C(2) C(3) C(5) one at_idx uniq show ?thesis
      by simp
  qed
  have append: "m_children (?h' ! p) = ?cs @ [newChild] \<and> m_parent (?h' ! newChild) = Some p \<and>
            m_unique (?h' ! newChild) = m_unique (h ! newChild) \<and>
            m_value (?h' ! newChild) = m_value (h ! newChild)"
    if nex: "\<not> (\<exists>n\<in>set ?cs. ?M n)"
  proof -
    have "?h' = setParent (setChildren h p (?cs @ [newChild])) newChild (Some p)"
      using nex by (intro addChild_append) simp
    then show ?thesis
      using p nc by simp
  qed
  from collapse append show ?thesis
    unfolding Let_def addChild_match_def by blast
qed

text \<open>
  In the example store the unattached \<open>a\<close> that is unique replaces the first \<open>a\<close> at index 0;
  the unattached \<open>a\<close> that is not unique replaces the second \<open>a\<close>, the first match, and ends at
  index 0 once the first \<open>a\<close> is removed; the \<open>c\<close> is appended.
\<close>

theorem addChild_unique_collapse_witness:
  "m_children (addChild siblings_example 0 5 ! 0) = [5, 3] \<and>
   m_unique (addChild siblings_example 0 5 ! 5) \<and>
   m_parent (addChild siblings_example 0 5 ! 5) = Some 0 \<and>
   m_value (addChild siblings_example 0 5 ! 5) = ''w'' \<and>
   m_children (addChild siblings_example 0 4 ! 0) = [4, 3] \<and>
   m_unique (addChild siblings_example 0 4 ! 4) \<and>
   m_value (addChild siblings_example 0 4 ! 4) = ''v'' \<and>
   m_children (addChild siblings_example 0 6 ! 0) = [1, 2, 3, 6] \<and>
   m_parent (addChild siblings_example 0 6 ! 6) = Some 0"
  using addChild_unique_collapse [of 0 siblings_example 5]
        addChild_unique_collapse [of 0 siblings_example 4]
        addChild_unique_collapse [of 0 siblings_example 6]
  by (simp add: siblings_example_def new_OTMLNode_def hasTag_def Let_def)

text \<open>
  The claim as it is written puts the remaining child at the index of the first match.
  In the example store the first match of the \<open>a\<close> that is not unique is the unique \<open>a\<close> at
  index 1; after the call index 1 holds \<open>b\<close>, and the new child is at index 0.
\<close>

theorem addChild_position_counterexample:
  "hasTag (siblings_example ! 4) \<and> 4 \<notin> set (m_children (siblings_example ! 0)) \<and>
   find (addChild_match siblings_example 4) (m_children (siblings_example ! 0)) = Some 2 \<and>
   std_find (m_children (siblings_example ! 0)) 2 = Some 1 \<and>
   m_children (addChild siblings_example 0 4 ! 0) = [4, 3] \<and>
   m_children (addChild siblings_example 0 4 ! 0) ! 1 \<noteq> 4"
  by code_simp

section \<open>The line counter\<close>

lemma text_lines_nonempty: "text_lines t \<noteq> []"
  by (induction t) (auto split: list.splits)

lemma text_lines_no_newline: "l \<in> set (text_lines t) \<Longrightarrow> NL \<notin> set l"
proof (induction t arbitrary: l)
  case Nil
  then show ?case by simp
next
  case (Cons c cs)
  obtain x xs where ls: "text_lines cs = x # xs"
    using text_lines_nonempty [of cs] by (cases "text_lines cs") auto
  from Cons.prems show ?case
    using Cons.IH [of x] Cons.IH [of l] by (auto simp: ls split: if_splits)
qed

lemma join_text_lines: "join_lines (text_lines t) = t"
proof (induction t)
  case Nil
  show ?case by simp
next
  case (Cons c cs)
  obtain l ls where ls: "text_lines cs = l # ls"
    using text_lines_nonempty [of cs] by (cases "text_lines cs") auto
  from Cons show ?case
    by (cases ls) (auto simp: ls)
qed

lemma drop_line_start:
  "ys \<noteq> [] \<Longrightarrow> drop (length (concat (map (\<lambda>l. l @ [NL]) xs))) (join_lines (xs @ ys)) = join_lines ys"
proof (induction xs)
  case Nil
  show ?case by simp
next
  case (Cons x xs)
  then have "join_lines ((x # xs) @ ys) = x @ NL # join_lines (xs @ ys)"
    by (cases "xs @ ys") auto
  with Cons show ?case by simp
qed

lemma drop_line_start_text:
  assumes "k < length (text_lines t)"
  shows "drop (line_start t k) t = join_lines (drop k (text_lines t))"
proof -
  have "drop (line_start t k) (join_lines (take k (text_lines t) @ drop k (text_lines t)))
          = join_lines (drop k (text_lines t))"
    unfolding line_start_def using assms by (intro drop_line_start) simp
  then show ?thesis by (simp add: join_text_lines)
qed

lemma line_start_Suc:
  "k < length (text_lines t) \<Longrightarrow> line_start t (Suc k) = line_start t k + length (text_lines t ! k) + 1"
  by (simp add: line_start_def take_Suc_conv_app_nth)

lemma line_start_le:
  assumes "k < length (text_lines t)"
  shows "line_start t k + length (text_lines t ! k) \<le> length t"
proof -
  have "length (drop (line_start t k) t) = length (join_lines (drop k (text_lines t)))"
    using drop_line_start_text [OF assms] by simp
  moreover have "length (text_lines t ! k) \<le> length (join_lines (drop k (text_lines t)))"
    using assms by (cases "drop (Suc k) (text_lines t)") (auto simp: Cons_nth_drop_Suc [symmetric])
  moreover have "line_start t k \<le> length t"
  proof -
    have "length (concat (map (\<lambda>l. l @ [NL]) xs)) \<le> length (join_lines (xs @ ys))" if "ys \<noteq> []" for xs ys
      using that
    proof (induction xs)
      case Nil
      show ?case by simp
    next
      case (Cons x xs)
      then have "join_lines ((x # xs) @ ys) = x @ NL # join_lines (xs @ ys)"
        by (cases "xs @ ys") auto
      with Cons show ?case by simp
    qed
    from this [of "drop k (text_lines t)" "take k (text_lines t)"] assms show ?thesis
      by (simp add: line_start_def join_text_lines)
  qed
  ultimately show ?thesis by simp
qed

lemma takeWhile_line:
  "NL \<notin> set l \<Longrightarrow> takeWhile (\<lambda>c. c \<noteq> NL) (l @ NL # r) = l"
  "NL \<notin> set l \<Longrightarrow> takeWhile (\<lambda>c. c \<noteq> NL) l = l"
  by (induction l) auto

lemma getline_lines_read:
  assumes "good s" and "lines_read s k"
  shows "fst (getline s) = text_lines (buf s) ! k"
    and "buf (snd (getline s)) = buf s"
    and "good (snd (getline s)) \<Longrightarrow> lines_read (snd (getline s)) (Suc k)"
proof -
  let ?ls = "text_lines (buf s)"
  let ?l = "?ls ! k"
  from assms(2) have k: "k < length ?ls" and pos: "gpos s = line_start (buf s) k"
    by (simp_all add: lines_read_def)
  have nl: "NL \<notin> set ?l"
    using k by (intro text_lines_no_newline [of _ "buf s"]) simp
  have r: "drop (gpos s) (buf s) = join_lines (?l # drop (Suc k) ?ls)"
    using drop_line_start_text [OF k] k by (simp add: pos Cons_nth_drop_Suc)
  have all: "fst (getline s) = ?l \<and> buf (snd (getline s)) = buf s \<and>
             (good (snd (getline s)) \<longrightarrow> lines_read (snd (getline s)) (Suc k))"
  proof (cases "Suc k < length ?ls")
    case True
    then obtain x xs where d: "drop (Suc k) ?ls = x # xs"
      by (cases "drop (Suc k) ?ls") auto
    have r': "drop (gpos s) (buf s) = ?l @ NL # join_lines (x # xs)"
      using r by (simp add: d)
    have tw: "takeWhile (\<lambda>c. c \<noteq> NL) (drop (gpos s) (buf s)) = ?l"
      unfolding r' by (rule takeWhile_line(1) [OF nl])
    have lt: "length ?l < length (drop (gpos s) (buf s))"
      unfolding r' by simp
    have g: "getline s = (?l, s\<lparr> gpos := gpos s + length ?l + 1 \<rparr>)"
      using assms(1) lt by (simp add: getline_def Let_def tw del: length_drop)
    show ?thesis
      using True by (simp add: g lines_read_def line_start_Suc [OF k] pos)
  next
    case False
    then have r': "drop (gpos s) (buf s) = ?l"
      using r by simp
    have tw: "takeWhile (\<lambda>c. c \<noteq> NL) ?l = ?l"
      by (rule takeWhile_line(2) [OF nl])
    have g: "getline s = (?l, s\<lparr> gpos := gpos s + length ?l, eofbit := True, failbit := (?l = []) \<rparr>)"
      using assms(1) by (simp add: getline_def Let_def r' tw)
    show ?thesis
      by (simp add: g good_def)
  qed
  then show "fst (getline s) = text_lines (buf s) ! k"
    and "buf (snd (getline s)) = buf s"
    and "good (snd (getline s)) \<Longrightarrow> lines_read (snd (getline s)) (Suc k)"
    by simp_all
qed

lemma getline_not_good: "\<not> good s \<Longrightarrow> getline s = ([], s\<lparr> failbit := True \<rparr>)"
  by (simp add: getline_def)

lemma getNextLine_fields:
  assumes "getNextLine st = (line, st1)"
  shows "st1 = st\<lparr> currentLine := currentLine st + 1, inp := snd (getline (inp st)) \<rparr>"
    and "line = fst (getline (inp st))"
  using assms by (auto simp: getNextLine_def Let_def split: prod.splits)

lemma getNextLine_counts:
  assumes "counts_lines st" and "getNextLine st = (line, st1)"
  shows "counts_lines st1" and "buf (inp st1) = buf (inp st)"
proof -
  note f = getNextLine_fields [OF assms(2)]
  show "buf (inp st1) = buf (inp st)"
  proof (cases "good (inp st)")
    case True
    with assms(1) have "lines_read (inp st) (nat (currentLine st))"
      by (simp add: counts_lines_def)
    from getline_lines_read(2) [OF True this] show ?thesis
      by (simp add: f)
  next
    case False
    then show ?thesis by (simp add: f getline_not_good)
  qed
  show "counts_lines st1"
  proof (cases "good (inp st)")
    case True
    with assms(1) have c: "0 \<le> currentLine st" and lr: "lines_read (inp st) (nat (currentLine st))"
      by (simp_all add: counts_lines_def)
    have "nat (currentLine st + 1) = Suc (nat (currentLine st))"
      using c by simp
    with getline_lines_read(3) [OF True lr] c show ?thesis
      by (simp add: f counts_lines_def)
  next
    case False
    then show ?thesis
      by (simp add: f getline_not_good counts_lines_def good_def)
  qed
qed

lemma getNextLine_line:
  assumes "counts_lines st" and "good (inp st)" and "getNextLine st = (line, st1)"
  shows "line = text_lines (buf (inp st)) ! nat (currentLine st)"
    and "currentLine st1 = currentLine st + 1"
    and "0 \<le> currentLine st"
    and "nat (currentLine st) < length (text_lines (buf (inp st)))"
    and "mem st1 = mem st" and "doc st1 = doc st" and "currentDepth st1 = currentDepth st"
proof -
  note f = getNextLine_fields [OF assms(3)]
  from assms(1,2) have c: "0 \<le> currentLine st" and lr: "lines_read (inp st) (nat (currentLine st))"
    by (simp_all add: counts_lines_def)
  show "line = text_lines (buf (inp st)) ! nat (currentLine st)"
    using getline_lines_read(1) [OF assms(2) lr] by (simp add: f)
  show "currentLine st1 = currentLine st + 1" "mem st1 = mem st" "doc st1 = doc st"
       "currentDepth st1 = currentDepth st"
    by (simp_all add: f)
  show "0 \<le> currentLine st" by (rule c)
  show "nat (currentLine st) < length (text_lines (buf (inp st)))"
    using lr by (simp add: lines_read_def)
qed

lemma rewind_counts:
  assumes "counts_lines st" and "getNextLine (st\<lparr> inp := snd (tellg (inp st)) \<rparr>) = (line, st2)"
  shows "counts_lines (st2\<lparr> inp := seekg (inp st2) (fst (tellg (inp st))),
                             currentLine := currentLine st2 - 1 \<rparr>)"
proof (cases "good (inp st)")
  case True
  then have t: "tellg (inp st) = (Some (gpos (inp st)), inp st)"
    by (simp add: tellg_def)
  from assms(2) have g: "getNextLine st = (line, st2)"
    by (simp add: t)
  note f = getNextLine_fields [OF g]
  from assms(1) True have c: "0 \<le> currentLine st" and lr: "lines_read (inp st) (nat (currentLine st))"
    by (simp_all add: counts_lines_def)
  have b: "buf (snd (getline (inp st))) = buf (inp st)"
    by (rule getline_lines_read(2) [OF True lr])
  show ?thesis
    using c lr b
    by (auto simp: f t seekg_def Let_def counts_lines_def good_def lines_read_def)
next
  case False
  then have t: "tellg (inp st) = (None, (inp st)\<lparr> failbit := True \<rparr>)"
    by (simp add: tellg_def)
  from assms(2) have g: "getNextLine (st\<lparr> inp := (inp st)\<lparr> failbit := True \<rparr> \<rparr>) = (line, st2)"
    by (simp add: t)
  note f = getNextLine_fields [OF g]
  show ?thesis
    by (simp add: f t seekg_def Let_def counts_lines_def good_def getline_def)
qed

lemma tellg_counts:
  "counts_lines st \<Longrightarrow> counts_lines (st\<lparr> inp := snd (tellg (inp st)) \<rparr>)"
  "buf (snd (tellg s)) = buf s"
  by (auto simp: tellg_def counts_lines_def good_def)

lemma multiLine_counts:
  assumes "multiLine st acc = Some y" and "counts_lines st"
  shows "case y of Inr (st', v) \<Rightarrow> counts_lines st' \<and> buf (inp st') = buf (inp st) | Inl e \<Rightarrow> True"
proof -
  have "counts_lines st \<longrightarrow>
          (case y of Inr (st', v) \<Rightarrow> counts_lines st' \<and> buf (inp st') = buf (inp st) | Inl e \<Rightarrow> True)"
  proof (rule multiLine.raw_induct [where P = "\<lambda>st acc y. counts_lines st \<longrightarrow>
          (case y of Inr (st', v) \<Rightarrow> counts_lines st' \<and> buf (inp st') = buf (inp st) | Inl e \<Rightarrow> True)",
          OF _ assms(1)])
    fix f :: "parser \<Rightarrow> string \<Rightarrow> (error + parser \<times> string) option"
    fix st acc y
    assume IH: "\<And>st acc y. f st acc = Some y \<Longrightarrow> counts_lines st \<longrightarrow>
          (case y of Inr (st', v) \<Rightarrow> counts_lines st' \<and> buf (inp st') = buf (inp st) | Inl e \<Rightarrow> True)"
    assume body: "(case tellg (inp st) of
      (lastPos, s1) \<Rightarrow>
        case getNextLine (st\<lparr>inp := s1\<rparr>) of
        (line, st2) \<Rightarrow>
          case getLineDepth st2 line True of Inl e \<Rightarrow> Some (Inl e)
          | Inr depth \<Rightarrow>
              if currentDepth st2 < depth
              then if eofbit (inp st2)
                   then Some (Inr (st2, acc @ drop (nat ((currentDepth st2 + 1) * 2)) line @ [NL]))
                   else f st2 (acc @ drop (nat ((currentDepth st2 + 1) * 2)) line @ [NL])
              else if trim line \<noteq> []
                   then Some (Inr (st2\<lparr>inp := seekg (inp st2) lastPos,
                                     currentLine := currentLine st2 - 1\<rparr>, acc))
                   else if eofbit (inp st2)
                        then Some (Inr (st2, acc @ [NL]))
                        else f st2 (acc @ [NL])) = Some y"
    show "counts_lines st \<longrightarrow>
          (case y of Inr (st', v) \<Rightarrow> counts_lines st' \<and> buf (inp st') = buf (inp st) | Inl e \<Rightarrow> True)"
    proof
      assume inv: "counts_lines st"
      obtain line st2 where g: "getNextLine (st\<lparr> inp := snd (tellg (inp st)) \<rparr>) = (line, st2)"
        by (cases "getNextLine (st\<lparr> inp := snd (tellg (inp st)) \<rparr>)") auto
      have inv2: "counts_lines st2" and buf2: "buf (inp st2) = buf (inp st)"
        using getNextLine_counts [OF tellg_counts(1) [OF inv] g] by (simp_all add: tellg_counts(2))
      note rw = rewind_counts [OF inv g]
      have bufrw: "buf (seekg (inp st2) p) = buf (inp st2)" for p
        by (simp add: seekg_def Let_def split: option.splits)
      have rec: "f st2 a = Some y \<Longrightarrow>
          (case y of Inr (st', v) \<Rightarrow> counts_lines st' \<and> buf (inp st') = buf (inp st) | Inl e \<Rightarrow> True)" for a
        using IH [of st2 a y] inv2 buf2 by (auto split: sum.splits)
      from body show "case y of Inr (st', v) \<Rightarrow> counts_lines st' \<and> buf (inp st') = buf (inp st) | Inl e \<Rightarrow> True"
        using inv2 buf2 rw bufrw g rec
        by (cases "tellg (inp st)")
           (auto split: sum.splits if_splits)
    qed
  qed
  with assms(2) show ?thesis
    by simp
qed

lemma counts_lines_cong:
  "inp st' = inp st \<Longrightarrow> currentLine st' = currentLine st \<Longrightarrow> counts_lines st' = counts_lines st"
  by (simp add: counts_lines_def)

lemma depthTransition_position:
  "depthTransition st d = Inr st' \<Longrightarrow> inp st' = inp st \<and> currentLine st' = currentLine st"
  by (auto simp: depthTransition_def split: if_splits sum.splits)

lemma parseNode_attach_position:
  "parseNode_attach st tag v dp nl = Inr st' \<Longrightarrow> inp st' = inp st \<and> currentLine st' = currentLine st"
  by (auto simp: parseNode_attach_def Let_def split: prod.splits option.splits)

lemma parseNode_counts:
  assumes "parseNode st data = Some (Inr st')" and "counts_lines st"
  shows "counts_lines st' \<and> buf (inp st') = buf (inp st)"
proof -
  obtain tag val dp where sp: "parseNode_split data = (tag, val, dp)"
    by (cases "parseNode_split data") auto
  define blk where "blk = (val = ''|'' \<or> val = ''|-'' \<or> val = ''|+'')"
  have eq: "parseNode st data =
      (if blk then
         (case multiLine st [] of
            None \<Rightarrow> None
          | Some (Inl e) \<Rightarrow> Some (Inl e)
          | Some (Inr (st1, multiLineData)) \<Rightarrow>
              (case block_policy val multiLineData of
                 Inl e \<Rightarrow> Some (Inl e)
               | Inr v \<Rightarrow> Some (parseNode_attach st1 tag v dp (currentLine st))))
       else Some (parseNode_attach st tag val dp (currentLine st)))"
    unfolding parseNode_def sp blk_def by (simp only: prod.case)
  show ?thesis
  proof (cases blk)
    case False
    with eq assms(1) have "parseNode_attach st tag val dp (currentLine st) = Inr st'"
      by simp
    from parseNode_attach_position [OF this] assms(2) show ?thesis
      by (simp add: counts_lines_def)
  next
    case True
    show ?thesis
    proof (cases "multiLine st []")
      case None
      with eq True assms(1) show ?thesis by simp
    next
      case (Some r)
      show ?thesis
      proof (cases r)
        case (Inl e)
        with eq True Some assms(1) show ?thesis by simp
      next
        case (Inr p)
        obtain st1 v where p: "p = (st1, v)" by (cases p) auto
        have ml: "multiLine st [] = Some (Inr (st1, v))"
          using Some Inr p by simp
        from multiLine_counts [OF ml assms(2)]
        have inv1: "counts_lines st1" and buf1: "buf (inp st1) = buf (inp st)"
          by simp_all
        show ?thesis
        proof (cases "block_policy val v")
          case (Inl e)
          with eq True ml assms(1) show ?thesis by simp
        next
          case (Inr w)
          with eq True ml assms(1) have "parseNode_attach st1 tag w dp (currentLine st) = Inr st'"
            by simp
          from parseNode_attach_position [OF this] inv1 buf1 show ?thesis
            by (simp add: counts_lines_def)
        qed
      qed
    qed
  qed
qed

lemma parse_step_counts:
  assumes "parse_step st = Some (Inr st')" and "counts_lines st"
  shows "counts_lines st' \<and> buf (inp st') = buf (inp st)"
proof -
  obtain line st1 where g: "getNextLine st = (line, st1)"
    by (cases "getNextLine st") auto
  have inv1: "counts_lines st1" and buf1: "buf (inp st1) = buf (inp st)"
    using getNextLine_counts [OF assms(2) g] by simp_all
  from assms(1) g have pl: "parseLine st1 line = Some (Inr st')"
    by (simp add: parse_step_def)
  show ?thesis
  proof (cases "getLineDepth st1 line False")
    case (Inl e)
    with pl show ?thesis by (simp add: parseLine_def)
  next
    case (Inr depth)
    show ?thesis
    proof (cases "depth = - 1 \<or> trim line = [] \<or> take 2 (trim line) = ''//''")
      case True
      then have "parseLine st1 line = Some (Inr st1)"
        unfolding parseLine_def Inr by auto
      with pl inv1 buf1 show ?thesis by simp
    next
      case False
      then have eq: "parseLine st1 line =
         (case depthTransition st1 depth of
            Inl e \<Rightarrow> Some (Inl e)
          | Inr st2 \<Rightarrow> parseNode st2 (trim line))"
        unfolding parseLine_def Inr by simp
      show ?thesis
      proof (cases "depthTransition st1 depth")
        case (Inl e)
        with eq pl show ?thesis by simp
      next
        case dt: (Inr st2)
        with eq pl have pn: "parseNode st2 (trim line) = Some (Inr st')" by simp
        from depthTransition_position [OF dt] inv1 buf1
        have "counts_lines st2" "buf (inp st2) = buf (inp st)"
          by (simp_all add: counts_lines_def)
        with parseNode_counts [OF pn] show ?thesis
          by simp
      qed
    qed
  qed
qed

lemma reads_counts:
  assumes "reads st0 st" and "counts_lines st0"
  shows "counts_lines st \<and> buf (inp st) = buf (inp st0)"
  using assms
proof (induction rule: reads.induct)
  case start
  then show ?case by simp
next
  case (round st st')
  with parse_step_counts [OF round.hyps(2)] show ?case by simp
next
  case (line st l st')
  with getNextLine_counts [OF _ line.hyps(2)] show ?case by simp
next
  case (depth st d st')
  with depthTransition_position [OF depth.hyps(2)] show ?case
    by (simp add: counts_lines_def)
qed

lemma reads_steps:
  "parse_steps k st0 = Some (Inr st) \<Longrightarrow> reads st0 st"
proof (induction k arbitrary: st)
  case 0
  then show ?case by (simp add: reads.start)
next
  case (Suc k)
  from Suc.prems have "\<exists>s. parse_steps k st0 = Some (Inr s) \<and>
      (if eofbit (inp s) then Some (Inr s) else parse_step s) = Some (Inr st)"
    by (cases "parse_steps k st0") (auto simp: next_step_def split: sum.splits if_splits)
  then obtain s where s: "parse_steps k st0 = Some (Inr s)"
    and n: "(if eofbit (inp s) then Some (Inr s) else parse_step s) = Some (Inr st)"
    by blast
  show ?case
  proof (cases "eofbit (inp s)")
    case True
    with n Suc.IH [OF s] show ?thesis by simp
  next
    case False
    with n have "parse_step s = Some (Inr st)" by simp
    from reads.round [OF Suc.IH [OF s] this] show ?thesis .
  qed
qed

lemma counts_lines_start: "counts_lines (new_OTMLParser h d (istringstream text))"
  by (simp add: counts_lines_def new_OTMLParser_def istringstream_def lines_read_def
        line_start_def text_lines_nonempty)

section \<open>The parser, line by line\<close>

lemma char_at_Cons_Suc: "char_at (x # xs) (int (Suc n)) = char_at xs (int n)"
  by (auto simp: char_at_def simp del: of_nat_Suc)

lemma char_after_spaces:
  "\<exists>c. char_at line (int (length (takeWhile (\<lambda>c. c = SPC) line))) = Inr c \<and>
        (c = TAB \<longleftrightarrow> TAB \<in> set (takeWhile (\<lambda>c. c = SPC \<or> c = TAB) line))"
proof (induction line)
  case Nil
  then show ?case by (simp add: char_at_def)
next
  case (Cons x xs)
  show ?case
  proof (cases "x = SPC")
    case True
    with Cons show ?thesis
      by (simp add: char_at_Cons_Suc del: of_nat_Suc)
  next
    case False
    then show ?thesis
      by (auto simp: char_at_def)
  qed
qed

lemma OTMLException_doc_text:
  "m_source (h ! d) \<noteq> [] \<Longrightarrow> 0 \<le> line \<Longrightarrow>
   OTMLException_doc h (Some d) msg line
     = OTMLException (''OTML error in '' @ [CHR 0x27] @ m_source (h ! d) @ [CHR 0x27]
                      @ '' at line '' @ show_nat (nat line) @ '': '' @ msg)"
  by (simp add: OTMLException_doc_def show_int_def)

text \<open>
  Claim C5, as the code has it.  Let the parser, on its way through \<open>text\<close>, read a line
  from a stream that is good.  The line it reads is line \<open>n\<close> of the text, counted from 1,
  where \<open>n\<close> is the value of its counter \<open>currentLine\<close> after the read.  The leading white
  space of the line is its longest prefix of spaces and tabs.  Outside a block scalar, and
  inside one for a line whose depth does not exceed \<open>currentDepth\<close>, a tab in the leading
  white space raises the exception for tabs, and otherwise an odd number of leading spaces
  raises the exception for the indentation, both built from the document and \<open>n\<close>; a line
  of a block scalar that is deeper than \<open>currentDepth\<close> is exempt from both checks.  What
  \<open>getLineDepth\<close> raises ends the round of the loop of \<open>parse\<close>, and the loop that collects a
  block scalar, with that exception.  The text of the exception names the source label
  and the line \<open>n\<close> when the label of the document is not empty.
\<close>

theorem getLineDepth_indentation:
  assumes "reads (new_OTMLParser h d (istringstream text)) st"
      and "good (inp st)"
      and "getNextLine st = (line, st1)"
  shows "let n = nat (currentLine st1);
             spaces = length (takeWhile (\<lambda>c. c = SPC) line);
             ws = takeWhile (\<lambda>c. c = SPC \<or> c = TAB) line;
             raised = (\<lambda>msg. Inl (OTMLException_doc (mem st1) (Some (doc st1)) msg (int n)))
         in 0 < n \<and> n \<le> length (text_lines text) \<and> line = text_lines text ! (n - 1) \<and>
            (\<not> multilining \<or> int (spaces div 2) \<le> currentDepth st1 \<longrightarrow>
               (TAB \<in> set ws \<longrightarrow>
                  getLineDepth st1 line multilining = raised ''indentation with tabs are not allowed'') \<and>
               (TAB \<notin> set ws \<and> odd spaces \<longrightarrow>
                  getLineDepth st1 line multilining = raised ''must indent every 2 spaces'') \<and>
               (TAB \<notin> set ws \<and> even spaces \<longrightarrow>
                  getLineDepth st1 line multilining = Inr (int (spaces div 2)))) \<and>
            (multilining \<and> int (spaces div 2) > currentDepth st1 \<longrightarrow>
               getLineDepth st1 line multilining = Inr (int (spaces div 2))) \<and>
            (\<forall>e. getLineDepth st1 line False = Inl e \<longrightarrow> parse_step st = Some (Inl e)) \<and>
            (\<forall>e acc. getLineDepth st1 line True = Inl e \<longrightarrow> multiLine st acc = Some (Inl e)) \<and>
            (m_source (mem st1 ! doc st1) \<noteq> [] \<longrightarrow>
               (\<forall>msg. OTMLException_doc (mem st1) (Some (doc st1)) msg (int n)
                  = OTMLException (''OTML error in '' @ [CHR 0x27] @ m_source (mem st1 ! doc st1)
                                   @ [CHR 0x27] @ '' at line '' @ show_nat n @ '': '' @ msg)))"
proof -
  from reads_counts [OF assms(1) counts_lines_start]
  have inv: "counts_lines st" and b: "buf (inp st) = text"
    by (simp_all add: new_OTMLParser_def istringstream_def)
  note gl = getNextLine_line [OF inv assms(2,3)]
  have n: "nat (currentLine st1) = Suc (nat (currentLine st))" and c1: "0 \<le> currentLine st1"
    using gl(2,3) by simp_all
  have pos: "0 < nat (currentLine st1) \<and> nat (currentLine st1) \<le> length (text_lines text) \<and>
             line = text_lines text ! (nat (currentLine st1) - 1)"
    using gl(1,4) by (simp add: n b)
  obtain c where c: "char_at line (int (length (takeWhile (\<lambda>c. c = SPC) line))) = Inr c"
    and tab: "c = TAB \<longleftrightarrow> TAB \<in> set (takeWhile (\<lambda>c. c = SPC \<or> c = TAB) line)"
    using char_after_spaces [of line] by blast
  have depth: "(\<not> multilining \<or> int (length (takeWhile (\<lambda>c. c = SPC) line) div 2) \<le> currentDepth st1 \<longrightarrow>
       (TAB \<in> set (takeWhile (\<lambda>c. c = SPC \<or> c = TAB) line) \<longrightarrow>
          getLineDepth st1 line multilining
            = Inl (OTMLException_doc (mem st1) (Some (doc st1)) ''indentation with tabs are not allowed''
                     (int (nat (currentLine st1))))) \<and>
       (TAB \<notin> set (takeWhile (\<lambda>c. c = SPC \<or> c = TAB) line) \<and> odd (length (takeWhile (\<lambda>c. c = SPC) line)) \<longrightarrow>
          getLineDepth st1 line multilining
            = Inl (OTMLException_doc (mem st1) (Some (doc st1)) ''must indent every 2 spaces''
                     (int (nat (currentLine st1))))) \<and>
       (TAB \<notin> set (takeWhile (\<lambda>c. c = SPC \<or> c = TAB) line) \<and> even (length (takeWhile (\<lambda>c. c = SPC) line)) \<longrightarrow>
          getLineDepth st1 line multilining = Inr (int (length (takeWhile (\<lambda>c. c = SPC) line) div 2)))) \<and>
     (multilining \<and> int (length (takeWhile (\<lambda>c. c = SPC) line) div 2) > currentDepth st1 \<longrightarrow>
        getLineDepth st1 line multilining = Inr (int (length (takeWhile (\<lambda>c. c = SPC) line) div 2)))"
    using c tab c1 by (auto simp: getLineDepth_def Let_def odd_iff_mod_2_eq_one)
  have step: "\<forall>e. getLineDepth st1 line False = Inl e \<longrightarrow> parse_step st = Some (Inl e)"
    by (simp add: parse_step_def assms(3) parseLine_def)
  have t: "tellg (inp st) = (Some (gpos (inp st)), inp st)"
    using assms(2) by (simp add: tellg_def)
  have block: "\<forall>e acc. getLineDepth st1 line True = Inl e \<longrightarrow> multiLine st acc = Some (Inl e)"
  proof (intro allI impI)
    fix e acc
    assume "getLineDepth st1 line True = Inl e"
    then show "multiLine st acc = Some (Inl e)"
      by (subst multiLine.simps) (simp add: t assms(3))
  qed
  have lbl: "m_source (mem st1 ! doc st1) \<noteq> [] \<longrightarrow>
               (\<forall>msg. OTMLException_doc (mem st1) (Some (doc st1)) msg (int (nat (currentLine st1)))
                  = OTMLException (''OTML error in '' @ [CHR 0x27] @ m_source (mem st1 ! doc st1)
                                   @ [CHR 0x27] @ '' at line '' @ show_nat (nat (currentLine st1)) @ '': '' @ msg))"
    using c1 by (simp add: OTMLException_doc_text)
  show ?thesis
    unfolding Let_def
    apply (insert pos depth step block lbl)
    apply (elim conjE)
    apply (intro conjI)
    apply assumption+
    done
qed

text \<open>
  The fourth line of a document, read after a block scalar that ends at the third line:
  the loop of the block has read the third line, has gone back before it and has
  decremented the counter.  Then a line of a block scalar that is not deeper than the node
  and has an odd number of spaces, and two lines of a block scalar that are deeper and
  exempt, one with an odd number of spaces and one with a tab.
\<close>

theorem getLineDepth_indentation_witness:
  "document_parse [] (istringstream (''a: |'' @ [NL] @ ''    x'' @ [NL] @ ''b'' @ [NL, TAB] @ ''c'')) ''f''
     = Some (Inl (OTMLException (''OTML error in '' @ [CHR 0x27] @ ''f'' @ [CHR 0x27]
                    @ '' at line 4: indentation with tabs are not allowed''))) \<and>
   text_lines (''a: |'' @ [NL] @ ''    x'' @ [NL] @ ''b'' @ [NL, TAB] @ ''c'') ! 3 = TAB # ''c'' \<and>
   document_parse [] (istringstream (''a: |'' @ [NL] @ ''    x'' @ [NL] @ '' c'')) ''f''
     = Some (Inl (OTMLException (''OTML error in '' @ [CHR 0x27] @ ''f'' @ [CHR 0x27]
                    @ '' at line 3: must indent every 2 spaces''))) \<and>
   map_option (map_sum id (\<lambda>(d, h). m_value (h ! 1)))
     (document_parse [] (istringstream (''a: |'' @ [NL] @ ''   x'' @ [NL] @ ''  '' @ [TAB] @ ''y'')) ''f'')
     = Some (Inr ('' x'' @ [NL, TAB] @ ''y'' @ [NL]))"
proof -
  let ?text = "''a: |'' @ [NL] @ ''    x'' @ [NL] @ ''b'' @ [NL, TAB] @ ''c''"
  let ?st0 = "new_OTMLParser (setSource ([] @ [new_OTMLNode]) (length ([]::heap)) ''f'')
                (length ([]::heap)) (istringstream ?text)"
  have "case parse_steps 2 ?st0 of
          Some (Inr st) \<Rightarrow>
            good (inp st) \<and> fst (getNextLine st) = TAB # ''c'' \<and>
            currentLine (snd (getNextLine st)) = 4 \<and>
            m_source (mem (snd (getNextLine st)) ! doc (snd (getNextLine st))) = ''f''
        | _ \<Rightarrow> False"
    by code_simp
  then obtain st where s2: "parse_steps 2 ?st0 = Some (Inr st)"
    and g: "good (inp st)" and l: "fst (getNextLine st) = TAB # ''c''"
    and c: "currentLine (snd (getNextLine st)) = 4"
    and src: "m_source (mem (snd (getNextLine st)) ! doc (snd (getNextLine st))) = ''f''"
    by (auto split: option.splits sum.splits)
  have n4: "show_nat 4 = ''4''"
    by code_simp
  have r: "reads ?st0 st"
    by (rule reads_steps [OF s2])
  have gl: "getNextLine st = (TAB # ''c'', snd (getNextLine st))"
    using l by (cases "getNextLine st") simp
  from getLineDepth_indentation [OF r g gl, where multilining = False]
  have line: "text_lines ?text ! 3 = TAB # ''c''"
    and step: "parse_step st = Some (Inl (OTMLException (''OTML error in '' @ [CHR 0x27] @ ''f''
                 @ [CHR 0x27] @ '' at line 4: indentation with tabs are not allowed'')))"
    by (simp_all add: Let_def c src n4)
  have "parse_steps 3 ?st0 = Some (Inl (OTMLException (''OTML error in '' @ [CHR 0x27] @ ''f''
                 @ [CHR 0x27] @ '' at line 4: indentation with tabs are not allowed'')))"
    using s2 g step by (simp add: numeral_3_eq_3 numeral_2_eq_2 next_step_def good_def)
  from document_parse_failed [OF _ this]
  have "document_parse [] (istringstream ?text) ''f''
     = Some (Inl (OTMLException (''OTML error in '' @ [CHR 0x27] @ ''f'' @ [CHR 0x27]
                    @ '' at line 4: indentation with tabs are not allowed'')))"
    by (simp add: good_def istringstream_def)
  moreover have "document_parse [] (istringstream (''a: |'' @ [NL] @ ''    x'' @ [NL] @ '' c'')) ''f''
     = Some (Inl (OTMLException (''OTML error in '' @ [CHR 0x27] @ ''f'' @ [CHR 0x27]
                    @ '' at line 3: must indent every 2 spaces'')))"
    by (rule document_parse_failed [where n = 1]; code_simp)
  moreover have "map_option (map_sum id (\<lambda>(d, h). m_value (h ! 1)))
     (document_parse [] (istringstream (''a: |'' @ [NL] @ ''   x'' @ [NL] @ ''  '' @ [TAB] @ ''y'')) ''f'')
     = Some (Inr ('' x'' @ [NL, TAB] @ ''y'' @ [NL]))"
    by (rule document_parse_observe [where n = 1]; code_simp)
  ultimately show ?thesis
    using line by (intro conjI)
qed

text \<open>
  The claim as it is written has the exception carry the line number, and has every tab
  in the leading white space raise it.  A document parsed under an empty source label,
  with a tab at the start of its first line: the text of the exception holds no digit.
  And a line that starts with a carriage return and a tab: \<open>getLineDepth\<close> looks at the
  character behind the leading spaces only, the tab is not seen, and \<open>trim\<close> removes both
  characters: the line is parsed as the node \<open>x\<close>.
\<close>

theorem getLineDepth_line_number_counterexample:
  "document_parse [] (istringstream (TAB # ''x'')) []
     = Some (Inl (OTMLException ''OTML error: indentation with tabs are not allowed'')) \<and>
   set ''OTML error: indentation with tabs are not allowed'' \<inter> set ''0123456789'' = {} \<and>
   TAB \<in> set (takeWhile isspace ([CHR 0x0D, TAB] @ ''x'')) \<and>
   map_option (map_sum id (\<lambda>(d, h). map (\<lambda>a. m_tag (h ! a)) (m_children (h ! d))))
     (document_parse [] (istringstream ([CHR 0x0D, TAB] @ ''x'')) ''f'')
     = Some (Inr [''x''])"
proof -
  have "document_parse [] (istringstream (TAB # ''x'')) []
     = Some (Inl (OTMLException ''OTML error: indentation with tabs are not allowed''))"
    by code_simp
  moreover have "set ''OTML error: indentation with tabs are not allowed'' \<inter> set ''0123456789'' = {}"
    by code_simp
  moreover have "TAB \<in> set (takeWhile isspace ([CHR 0x0D, TAB] @ ''x''))"
    by code_simp
  moreover have "map_option (map_sum id (\<lambda>(d, h). map (\<lambda>a. m_tag (h ! a)) (m_children (h ! d))))
     (document_parse [] (istringstream ([CHR 0x0D, TAB] @ ''x'')) ''f'')
     = Some (Inr [''x''])"
    by (rule document_parse_observe [where n = 1]; code_simp)
  ultimately show ?thesis
    by (intro conjI)
qed

lemma getLineDepth_nonneg: "getLineDepth st line m = Inr d \<Longrightarrow> 0 \<le> d"
  by (auto simp: getLineDepth_def Let_def split: if_splits sum.splits)

lemma ascend_funpow:
  "\<forall>k<n. ((\<lambda>q. Option.bind q (\<lambda>a. m_parent (h ! a))) ^^ k) cp \<noteq> None \<Longrightarrow>
   ascend h n cp = Inr (((\<lambda>q. Option.bind q (\<lambda>a. m_parent (h ! a))) ^^ n) cp)"
proof (induction n arbitrary: cp)
  case 0
  then show ?case by simp
next
  case (Suc n)
  let ?up = "\<lambda>q. Option.bind q (\<lambda>a. m_parent (h ! a))"
  from Suc.prems have "(?up ^^ 0) cp \<noteq> None" by blast
  then obtain a where a: "cp = Some a" by auto
  have "\<forall>k<n. (?up ^^ k) (m_parent (h ! a)) \<noteq> None"
  proof (intro allI impI)
    fix k assume "k < n"
    with Suc.prems have "(?up ^^ Suc k) cp \<noteq> None" by auto
    moreover have "(?up ^^ Suc k) cp = (?up ^^ k) (?up cp)"
      by (simp only: funpow_Suc_right o_apply)
    ultimately show "(?up ^^ k) (m_parent (h ! a)) \<noteq> None"
      by (simp add: a)
  qed
  from Suc.IH [OF this] have "ascend h n (m_parent (h ! a)) = Inr ((?up ^^ n) (m_parent (h ! a)))" .
  moreover have "(?up ^^ Suc n) cp = (?up ^^ n) (?up cp)"
    by (simp only: funpow_Suc_right o_apply)
  ultimately show ?case
    by (simp add: a)
qed

lemma ascend_null:
  "\<exists>k<n. ((\<lambda>q. Option.bind q (\<lambda>a. m_parent (h ! a))) ^^ k) cp = None \<Longrightarrow>
   ascend h n cp = Inl NullPointerDereference"
proof (induction n arbitrary: cp)
  case 0
  then show ?case by simp
next
  case (Suc n)
  let ?up = "\<lambda>q. Option.bind q (\<lambda>a. m_parent (h ! a))"
  show ?case
  proof (cases cp)
    case None
    then show ?thesis by simp
  next
    case (Some a)
    from Suc.prems obtain k where k: "k < Suc n" "(?up ^^ k) cp = None" by blast
    with Some obtain j where j: "k = Suc j" by (cases k) auto
    have "(?up ^^ Suc j) cp = (?up ^^ j) (?up cp)"
      by (simp only: funpow_Suc_right o_apply)
    with k j Some have "\<exists>k<n. (?up ^^ k) (m_parent (h ! a)) = None"
      by auto
    from Suc.IH [OF this] Some show ?thesis by simp
  qed
qed

text \<open>
  Claim C4, as the code has it.  For a line that is neither blank nor a comment, of depth
  \<open>d\<close>, with \<open>c\<close> the \<open>currentDepth\<close> of the parser: when \<open>d = c + 1\<close> the previous node becomes the
  current parent; when \<open>d < c\<close> the current parent is replaced \<open>c - d\<close> times by its parent
  (a null pointer on the way is dereferenced); when \<open>d = c\<close> the parent stays; when
  \<open>d > c + 1\<close> the exception for the depth is raised, built from the document and
  \<open>currentLine\<close>, and its text names the source label and the line when the label of the
  document is not empty.  In the first three cases \<open>parseNode\<close> runs with \<open>currentDepth = d\<close>.
\<close>

theorem parseLine_depth_transition:
  assumes depth: "getLineDepth st line False = Inr d"
      and nonblank: "trim line \<noteq> []"
      and noncomment: "take 2 (trim line) \<noteq> ''//''"
  shows
    "(let c = currentDepth st;
          up = (\<lambda>q. Option.bind q (\<lambda>a. m_parent (mem st ! a)))
      in (d = c + 1 \<longrightarrow>
            parseLine st line
              = parseNode (st\<lparr> currentParent := previousNode st, currentDepth := d \<rparr>) (trim line)) \<and>
         (d < c \<and> (\<forall>k < nat (c - d). (up ^^ k) (currentParent st) \<noteq> None) \<longrightarrow>
            parseLine st line
              = parseNode (st\<lparr> currentParent := (up ^^ nat (c - d)) (currentParent st),
                                currentDepth := d \<rparr>) (trim line)) \<and>
         (d < c \<and> (\<exists>k < nat (c - d). (up ^^ k) (currentParent st) = None) \<longrightarrow>
            parseLine st line = Some (Inl NullPointerDereference)) \<and>
         (d = c \<longrightarrow> parseLine st line = parseNode (st\<lparr> currentDepth := d \<rparr>) (trim line)) \<and>
         (d > c + 1 \<longrightarrow>
            parseLine st line
              = Some (Inl (OTMLException_doc (mem st) (Some (doc st))
                             ''invalid indentation depth, are you indenting correctly?''
                             (currentLine st)))) \<and>
         (m_source (mem st ! doc st) \<noteq> [] \<and> 0 \<le> currentLine st \<longrightarrow>
            OTMLException_doc (mem st) (Some (doc st))
                ''invalid indentation depth, are you indenting correctly?'' (currentLine st)
              = OTMLException (''OTML error in '' @ [CHR 0x27] @ m_source (mem st ! doc st) @ [CHR 0x27]
                  @ '' at line '' @ show_nat (nat (currentLine st))
                  @ '': invalid indentation depth, are you indenting correctly?'')))"
proof -
  from getLineDepth_nonneg [OF depth] have d0: "d \<noteq> - 1" by simp
  have pl: "parseLine st line =
        (case depthTransition st d of Inl e \<Rightarrow> Some (Inl e) | Inr st1 \<Rightarrow> parseNode st1 (trim line))"
    using depth nonblank noncomment d0 by (simp add: parseLine_def)
  show ?thesis
    unfolding Let_def pl
    by (auto simp: depthTransition_def ascend_funpow ascend_null OTMLException_doc_def show_int_def)
qed


theorem parseLine_depth_transition_witness:
  "parseLine parser_example ''x''
     = parseNode (parser_example\<lparr> currentParent := Some 0, currentDepth := 0 \<rparr>) ''x'' \<and>
   parseLine parser_example ''      y''
     = parseNode (parser_example\<lparr> currentParent := Some 3, currentDepth := 3 \<rparr>) ''y'' \<and>
   parseLine parser_example ''    z''
     = parseNode (parser_example\<lparr> currentDepth := 2 \<rparr>) ''z'' \<and>
   parseLine parser_example ''        w''
     = Some (Inl (OTMLException (''OTML error in '' @ [CHR 0x27] @ ''f'' @ [CHR 0x27]
         @ '' at line 4: invalid indentation depth, are you indenting correctly?'')))"
proof -
  have x: "getLineDepth parser_example ''x'' False = Inr 0" "trim ''x'' \<noteq> []"
      "take 2 (trim ''x'') \<noteq> ''//''" "trim ''x'' = ''x''"
    by code_simp+
  have y: "getLineDepth parser_example ''      y'' False = Inr 3" "trim ''      y'' \<noteq> []"
      "take 2 (trim ''      y'') \<noteq> ''//''" "trim ''      y'' = ''y''"
    by code_simp+
  have z: "getLineDepth parser_example ''    z'' False = Inr 2" "trim ''    z'' \<noteq> []"
      "take 2 (trim ''    z'') \<noteq> ''//''" "trim ''    z'' = ''z''"
    by code_simp+
  have w: "getLineDepth parser_example ''        w'' False = Inr 4" "trim ''        w'' \<noteq> []"
      "take 2 (trim ''        w'') \<noteq> ''//''"
    by code_simp+
  have n4: "show_nat 4 = ''4''"
    by code_simp
  have two: "nat 2 = Suc (Suc 0)"
    by simp
  show ?thesis
    using parseLine_depth_transition [OF x(1-3)] parseLine_depth_transition [OF y(1-3)]
          parseLine_depth_transition [OF z(1-3)] parseLine_depth_transition [OF w(1-3)]
    by (simp add: x(4) y(4) z(4) n4 two parser_example_def nested_example_def new_OTMLNode_def
          Let_def numeral_2_eq_2 All_less_Suc)
qed

text \<open>
  The claim as it is written has the exception cite the line number.  A document parsed
  under an empty source label whose second line is two levels deeper than the first: the
  text of the exception holds no digit.
\<close>

theorem parseLine_line_number_counterexample:
  "document_parse [] (istringstream (''a'' @ [NL] @ ''    b'')) []
     = Some (Inl (OTMLException
         ''OTML error: invalid indentation depth, are you indenting correctly?'')) \<and>
   set ''OTML error: invalid indentation depth, are you indenting correctly?''
     \<inter> set ''0123456789'' = {}"
  by code_simp

text \<open>
  Claim C10.  The single line \<open>x\<close> indented by two spaces: the line has depth 1, the parser
  is at depth 0 with no previous node, the descent makes the null previous node the current
  parent, and \<open>parseNode\<close> calls \<open>addChild\<close> through that null pointer.  No exception of the
  parser is raised.
\<close>

theorem descend_before_any_node:
  "(case getNextLine (new_OTMLParser [new_OTMLNode\<lparr> m_source := ''f'' \<rparr>] 0 (istringstream ''  x'')) of
      (line, st) \<Rightarrow>
        line = ''  x'' \<and> previousNode st = None \<and> currentParent st = Some 0 \<and>
        getLineDepth st line False = Inr 1 \<and>
        depthTransition st 1 = Inr (st\<lparr> currentParent := None, currentDepth := 1 \<rparr>) \<and>
        parseNode (st\<lparr> currentParent := None, currentDepth := 1 \<rparr>) ''x''
          = Some (Inl NullPointerDereference) \<and>
        parseLine st line = Some (Inl NullPointerDereference)) \<and>
   document_parse [] (istringstream ''  x'') ''f'' = Some (Inl NullPointerDereference)"
  by code_simp

text \<open>
  Claim C9.  The single line \<open>a: |\<close>: the block scalar collects one newline, the loop that
  strips the newlines erases it and reads the empty text at index \<open>-1\<close>.  The same happens
  for \<open>|-\<close> followed by blank lines.
\<close>

theorem strip_loop_reads_before_start:
  "(case getNextLine (new_OTMLParser [new_OTMLNode\<lparr> m_source := ''f'' \<rparr>] 0 (istringstream ''a: |'')) of
      (line, st) \<Rightarrow>
        line = ''a: |'' \<and>
        map_option (map_sum id snd) (multiLine st []) = Some (Inr [NL]) \<and>
        strip_newlines [NL] 1 = Inl StringIndexOutOfRange \<and>
        strip_newlines [] 0 = Inl StringIndexOutOfRange \<and>
        char_at [] (- 1) = Inl StringIndexOutOfRange \<and>
        block_policy ''|'' [NL] = Inl StringIndexOutOfRange \<and>
        block_policy ''|-'' [NL] = Inl StringIndexOutOfRange \<and>
        parseLine st line = Some (Inl StringIndexOutOfRange)) \<and>
   document_parse [] (istringstream ''a: |'') ''f'' = Some (Inl StringIndexOutOfRange) \<and>
   document_parse [] (istringstream (''a: |-'' @ [NL, NL])) ''f'' = Some (Inl StringIndexOutOfRange)"
  by code_simp

theorem descend_before_any_node_witness:
  "document_parse [] (istringstream ''  x'') ''f'' = Some (Inl NullPointerDereference)"
  using descend_before_any_node by simp

theorem strip_loop_reads_before_start_witness:
  "document_parse [] (istringstream ''a: |'') ''f'' = Some (Inl StringIndexOutOfRange)"
  using strip_loop_reads_before_start by simp

section \<open>Block scalars\<close>

lemma char_at_last: "char_at (xs @ [x]) (int (length xs)) = Inr x"
  by (simp add: char_at_def)

lemma strip_newlines_spec:
  "strip_newlines s (int (length s)) =
     (if set s \<subseteq> {NL} then Inl StringIndexOutOfRange
      else Inr (rev (dropWhile (\<lambda>c. c = NL) (rev s))))"
proof (induction s rule: rev_induct)
  case Nil
  show ?case
    by (subst strip_newlines.simps) (simp add: char_at_def)
next
  case (snoc x xs)
  show ?case
  proof (cases "x = NL")
    case True
    have "strip_newlines (xs @ [x]) (int (length (xs @ [x]))) = strip_newlines xs (int (length xs))"
      by (subst strip_newlines.simps) (simp add: char_at_last True)
    with snoc True show ?thesis by simp
  next
    case False
    have "strip_newlines (xs @ [x]) (int (length (xs @ [x]))) = Inr (xs @ [x])"
      by (subst strip_newlines.simps) (simp add: char_at_last False)
    with False show ?thesis by simp
  qed
qed

lemma block_policy_spec:
  "block_policy ''|+'' s = Inr s"
  "\<not> set s \<subseteq> {NL} \<Longrightarrow> block_policy ''|-'' s = Inr (rev (dropWhile (\<lambda>c. c = NL) (rev s)))"
  "\<not> set s \<subseteq> {NL} \<Longrightarrow> block_policy ''|'' s = Inr (rev (dropWhile (\<lambda>c. c = NL) (rev s)) @ [NL])"
  "set s \<subseteq> {NL} \<Longrightarrow> block_policy ''|-'' s = Inl StringIndexOutOfRange"
  "set s \<subseteq> {NL} \<Longrightarrow> block_policy ''|'' s = Inl StringIndexOutOfRange"
  by (simp_all add: block_policy_def strip_newlines_spec)

text \<open>
  A block of the lines \<open>a\<close> and \<open>b\<close>, each ended by a newline, under the three styles: the end
  of the text counts as one more, blank, line.  The value of the node is \<open>a\<close>, \<open>b\<close> with one
  newline at the end for \<open>|\<close>, with none for \<open>|-\<close> and with two for \<open>|+\<close>.
\<close>

lemma block_scalar_styles:
  "map_option (map_sum id (\<lambda>(d, h). m_value (h ! 1)))
     (document_parse [] (istringstream (''k: |'' @ [NL] @ ''  a'' @ [NL] @ ''  b'' @ [NL])) ''f'')
     = Some (Inr (''a'' @ [NL] @ ''b'' @ [NL]))"
  "map_option (map_sum id (\<lambda>(d, h). m_value (h ! 1)))
     (document_parse [] (istringstream (''k: |-'' @ [NL] @ ''  a'' @ [NL] @ ''  b'' @ [NL])) ''f'')
     = Some (Inr (''a'' @ [NL] @ ''b''))"
  "map_option (map_sum id (\<lambda>(d, h). m_value (h ! 1)))
     (document_parse [] (istringstream (''k: |+'' @ [NL] @ ''  a'' @ [NL] @ ''  b'' @ [NL])) ''f'')
     = Some (Inr (''a'' @ [NL] @ ''b'' @ [NL, NL]))"
  by (rule document_parse_observe [where n = 1]; code_simp)+

text \<open>
  Claim C3 at a block without content.  A header \<open>a: |\<close> or \<open>a: |-\<close> followed at once by the
  sibling \<open>b: 1\<close>: nothing is collected, and the loop that strips the newlines reads the
  empty text at index \<open>-1\<close>, where the claim has \<open>|\<close> leave one newline and \<open>|-\<close> none.  Under
  \<open>|+\<close>, which strips nothing, the same document parses, the value of \<open>a\<close> is empty and \<open>b\<close>
  is parsed as the next node.
\<close>

theorem block_scalar_without_content:
  "document_parse [] (istringstream (''a: |'' @ [NL] @ ''b: 1'')) ''f''
     = Some (Inl StringIndexOutOfRange) \<and>
   document_parse [] (istringstream (''a: |-'' @ [NL] @ ''b: 1'')) ''f''
     = Some (Inl StringIndexOutOfRange) \<and>
   map_option (map_sum id (\<lambda>(d, h). (m_children (h ! d), m_value (h ! 1))))
     (document_parse [] (istringstream (''a: |+'' @ [NL] @ ''b: 1'')) ''f'')
     = Some (Inr ([1, 2], []))"
proof -
  have "map_option (map_sum id (\<lambda>(d, h). (m_children (h ! d), m_value (h ! 1))))
     (document_parse [] (istringstream (''a: |+'' @ [NL] @ ''b: 1'')) ''f'')
     = Some (Inr ([1, 2], []))"
    by (rule document_parse_observe [where n = 2]; code_simp)
  moreover have "document_parse [] (istringstream (''a: |'' @ [NL] @ ''b: 1'')) ''f''
     = Some (Inl StringIndexOutOfRange)"
    "document_parse [] (istringstream (''a: |-'' @ [NL] @ ''b: 1'')) ''f''
     = Some (Inl StringIndexOutOfRange)"
    by code_simp+
  ultimately show ?thesis by simp
qed

theorem block_scalar_without_content_witness:
  "document_parse [] (istringstream (''a: |'' @ [NL] @ ''b: 1'')) ''f''
     = Some (Inl StringIndexOutOfRange)"
  using block_scalar_without_content by simp

section \<open>The emitter\<close>

lemma emit_children_all:
  "\<forall>c\<in>set cs. f c = Some (Inr (out c)) \<Longrightarrow>
   emit_children f sep cs =
     Some (Inr (case cs of [] \<Rightarrow> []
                | c # rest \<Rightarrow> (if sep then [NL] else []) @ out c @ concat (map (\<lambda>c. NL # out c) rest)))"
proof (induction cs arbitrary: sep)
  case Nil
  then show ?case by simp
next
  case (Cons c cs)
  then show ?case
    by (cases cs) simp_all
qed

text \<open>
  Claim C8, as the code has it.  After the node's own line the emitter emits every child
  at \<open>depth + 1\<close>, the null ones too: the own line of a null node is its tag with a colon
  (or a dash) and \<open>~\<close>.  A newline precedes each child; at the root (depth \<open>-1\<close>), which has
  no line of its own, no newline precedes the first child.  Nothing follows the last
  child.  \<open>out c\<close> is what the recursive call emits for the child \<open>c\<close>.
\<close>

theorem emitNode_children:
  assumes kids: "\<forall>c\<in>set (m_children (h ! a)). emitNode k h c (d + 1) = Some (Inr (out c))"
  shows
    "(0 \<le> d \<and> emit_own (h ! a) d = Inr own \<longrightarrow>
        emitNode (Suc k) h a d
          = Some (Inr (own @ concat (map (\<lambda>c. NL # out c) (m_children (h ! a)))))) \<and>
     (d < 0 \<longrightarrow>
        emitNode (Suc k) h a d
          = Some (Inr (case m_children (h ! a) of
                         [] \<Rightarrow> []
                       | c # rest \<Rightarrow> out c @ concat (map (\<lambda>c. NL # out c) rest)))) \<and>
     (0 \<le> d \<and> m_null (h ! a) \<longrightarrow>
        emit_own (h ! a) d
          = Inr (indent d @ (if hasTag (h ! a) then m_tag (h ! a) @ '':'' else ''-'') @ '' ~''))"
proof -
  note E = emit_children_all [OF kids]
  show ?thesis
    by (auto simp: E emit_own_def split: list.splits)
qed

theorem emitNode_children_witness:
  "emitNode 2 null_child_example 0 (- 1) = Some (Inr (''a: ~'' @ [NL] @ ''b: 1'')) \<and>
   emitNode 3 nested_example 1 0 = Some (Inr (''a'' @ [NL] @ ''  b'' @ [NL] @ ''    c'')) \<and>
   emit_own (null_child_example ! 1) 0 = Inr ''a: ~''"
proof -
  have k1: "\<forall>c\<in>set (m_children (null_child_example ! 0)).
      emitNode 1 null_child_example c (- 1 + 1) = Some (Inr ((\<lambda>c. if c = 1 then ''a: ~'' else ''b: 1'') c))"
    by code_simp
  have k2: "\<forall>c\<in>set (m_children (nested_example ! 1)).
      emitNode 2 nested_example c (0 + 1) = Some (Inr ((\<lambda>c. ''  b'' @ [NL] @ ''    c'') c))"
    by code_simp
  show ?thesis
    using emitNode_children [of null_child_example 0 1 "- 1", OF k1]
          emitNode_children [of nested_example 1 2 0, OF k2, of "''a''"]
          emitNode_children [of null_child_example 1 0 0 "\<lambda>c. []" "[]"]
    by (simp add: numeral_2_eq_2 numeral_3_eq_3 null_child_example_def nested_example_def
          new_OTMLNode_def emit_own_def hasTag_def hasValue_def indent_def
          del: emitNode.simps)
qed

text \<open>
  The claim as it is written has a null child produce no output.  The document of the
  example has a null child \<open>a\<close>, which is emitted as \<open>a: ~\<close>.
\<close>

theorem emitNode_null_child_counterexample:
  "m_null (null_child_example ! 1) \<and> 1 \<in> set (m_children (null_child_example ! 0)) \<and>
   document_emit 2 null_child_example 0 = Some (Inr (''a: ~'' @ [NL] @ ''b: 1'')) \<and>
   document_emit 2 null_child_example 0 \<noteq> Some (Inr ''b: 1'')"
  by code_simp

section \<open>Emitting and parsing back\<close>

subsection \<open>Strings\<close>








lemma trim_Nil [simp]: "trim [] = []"
  by (simp add: trim_def)




lemma std_find_present: "x \<in> set xs \<Longrightarrow> std_find xs x \<noteq> None"
  by (induction xs) auto










subsection \<open>Attaching the node of a line\<close>




subsection \<open>Lines and the stream\<close>






subsection \<open>Structures in the store\<close>









lemma parsed_fields [simp]:
  "t_tag (parsed t) = t_tag t" "t_value (parsed t) = t_value t" "t_null (parsed t) = t_null t"
  "t_unique (parsed t) = parsed_unique t" "t_children (parsed t) = map parsed (t_children t)"
  by (cases t; simp)+

lemma sib_ok_Cons:
  "sib_ok es (k # ks) \<Longrightarrow> (\<forall>e\<in>set es. sibling_ok e k) \<and> sib_ok (es @ [k]) ks"
  by simp




subsection \<open>The emitter on a structure\<close>







subsection \<open>The round trip\<close>







end
